theory Spec2Isabelle
  imports Main
begin

section \<open>The blueprint: the compiler's read-only input\<close>

text \<open>
  Steps and stacks are objects with identity: the compiler keys its memo tables on the
  object (\<^verbatim>\<open>Map<Step, AGraphNode>\<close>, \<^verbatim>\<open>Map<StackDeployment, AGraph>\<close>), and a Step
  refers to other Steps, possibly in a cycle. So a Step or a stack is a reference (a
  number), and the objects themselves live in a table indexed by reference.
\<close>

type_synonym step_ref = nat
type_synonym stack_ref = nat
type_synonym node_ref = nat

text \<open>
  The classes of \<^verbatim>\<open>../blueprint\<close> and \<^verbatim>\<open>../types\<close> are imported by the compiler; only
  the members it reads are kept. A \<^verbatim>\<open>FileSet\<close> knows its producer Step and, as a
  file-set producer, has an optional primary output of its own.
\<close>

datatype FileSet = FileSet (producer: step_ref) (fs_primaryOutput: "FileSet option")

datatype AssetType = FILE | DOCKER_IMAGE

record StackAsset =
  assetId :: string
  assetSelector :: string
  assetType :: AssetType

record Step =
  step_id :: string
  isCodePipelineSource :: bool
  dependencySteps :: "step_ref list"
  primaryOutput :: "FileSet option"

record StackDeployment =
  stackName :: string
  requiredAssets :: "StackAsset list"
  dependsOnStacks :: "stack_ref list"
  customCloudAssembly :: "FileSet option option"

record StageDeployment =
  stageName :: string
  stacks :: "stack_ref list"
  stage_pre :: "step_ref list"
  stage_post :: "step_ref list"

record Wave =
  wave_id :: string
  stages :: "StageDeployment list"
  wave_pre :: "step_ref list"
  wave_post :: "step_ref list"

record Blueprint =
  synthStep :: step_ref
  waves :: "Wave list"

record GraphFromBlueprintProps =
  selfMutation :: "bool option"

text \<open>The Step and StackDeployment objects a blueprint refers to, by reference.\<close>

record Objects =
  steps :: "step_ref \<Rightarrow> Step"
  stackDeployments :: "stack_ref \<Rightarrow> StackDeployment"

section \<open>Graph nodes and the compiler's state\<close>

datatype GraphAnnotation =
    Group
  | StackGroup stack_ref
  | PublishAssets "StackAsset list"
  | StepAnn step_ref "bool option"
  | SelfUpdate
  | Prepare stack_ref
  | Execute stack_ref

fun type_of :: "GraphAnnotation \<Rightarrow> string" where
  "type_of Group = ''group''"
| "type_of (StackGroup s) = ''stack-group''"
| "type_of (PublishAssets xs) = ''publish-assets''"
| "type_of (StepAnn s b) = ''step''"
| "type_of SelfUpdate = ''self-update''"
| "type_of (Prepare s) = ''prepare''"
| "type_of (Execute s) = ''execute''"

text \<open>
  A node of the graph container: its name, its annotation (absent for a graph made with
  \<^verbatim>\<open>new Graph(name)\<close>), its children in insertion order (a plain node has none) and
  the nodes it depends on.
\<close>

record GraphNode =
  node_id :: string
  data :: "GraphAnnotation option"
  children :: "node_ref list"
  dependencies :: "node_ref list"

text \<open>
  The fields of the class, and the store of graph nodes the fields point into: a node
  is allocated at \<open>next_ref\<close>, and a reference tells two nodes apart as \<^verbatim>\<open>===\<close> does.
\<close>

record GraphFromBlueprint =
  heap :: "node_ref \<Rightarrow> GraphNode"
  next_ref :: node_ref
  graph :: node_ref
  cloudAssemblyFileSet :: "FileSet option"
  added :: "step_ref \<rightharpoonup> node_ref"
  assetNodes :: "string \<rightharpoonup> node_ref"
  synthNode :: "node_ref option"
  selfMutateNode :: "node_ref option"
  lastPreparationNode :: "node_ref option"
  fileAssetCtr :: nat
  dockerAssetCtr :: nat

text \<open>
  Every \<^verbatim>\<open>throw\<close>: the two of the compiler, the container's refusal of a second child
  of one name, and the read of a member of \<^verbatim>\<open>undefined\<close>. \<open>OutOfFuel\<close> is not an
  exception of the program: it is the value of a recursion cut off by its depth bound.
\<close>

datatype error =
    MissingOutput step_ref
  | WrongDataType node_ref "string option"
  | DuplicateId node_ref string
  | TypeError
  | OutOfFuel

section \<open>The graph container\<close>

text \<open>
  Modelled from the spec: the generic container \<^verbatim>\<open>../private/graph\<close> (\<^verbatim>\<open>Graph\<close>,
  \<^verbatim>\<open>GraphNode\<close>, \<^verbatim>\<open>GraphNodeCollection\<close>) is not among the sources. Section 4.1
  of the spec gives its contract: a child is attached under a parent and the attachment
  fails when a sibling has the name; a child is looked up by name without being
  created; \<^verbatim>\<open>dependOn\<close> records dependency edges, to nodes anywhere in the tree; a
  node collection does so for each of its members.
\<close>

definition GraphNode_of :: "string \<Rightarrow> GraphAnnotation option \<Rightarrow> GraphFromBlueprint
    \<Rightarrow> node_ref \<times> GraphFromBlueprint" where
  "GraphNode_of name d st =
     (next_ref st,
      st\<lparr>heap := (heap st)(next_ref st :=
             \<lparr>node_id = name, data = d, children = [], dependencies = []\<rparr>),
         next_ref := Suc (next_ref st)\<rparr>)"

definition tryGetChild :: "node_ref \<Rightarrow> string \<Rightarrow> GraphFromBlueprint \<Rightarrow> node_ref option" where
  "tryGetChild g name st = find (\<lambda>c. node_id (heap st c) = name) (children (heap st g))"

fun Graph_add :: "node_ref \<Rightarrow> node_ref list \<Rightarrow> GraphFromBlueprint \<Rightarrow> error + GraphFromBlueprint" where
  "Graph_add g [] st = Inr st"
| "Graph_add g (n # ns) st =
     (case tryGetChild g (node_id (heap st n)) st of
        Some c \<Rightarrow> Inl (DuplicateId g (node_id (heap st n)))
      | None \<Rightarrow>
          Graph_add g ns
            (st\<lparr>heap := (heap st)(g := (heap st g)\<lparr>children := children (heap st g) @ [n]\<rparr>)\<rparr>))"

definition Graph_of :: "string \<Rightarrow> GraphAnnotation option \<Rightarrow> node_ref list \<Rightarrow> GraphFromBlueprint
    \<Rightarrow> error + node_ref \<times> GraphFromBlueprint" where
  "Graph_of name d ns st =
     (case GraphNode_of name d st of
        (g, st1) \<Rightarrow> (case Graph_add g ns st1 of Inl e \<Rightarrow> Inl e | Inr st2 \<Rightarrow> Inr (g, st2)))"

definition dependOn :: "node_ref \<Rightarrow> node_ref list \<Rightarrow> GraphFromBlueprint \<Rightarrow> GraphFromBlueprint" where
  "dependOn n ds st =
     st\<lparr>heap := (heap st)(n := (heap st n)\<lparr>dependencies := dependencies (heap st n) @ ds\<rparr>)\<rparr>"

text \<open>An argument that is \<^verbatim>\<open>undefined\<close> at run time names no node and records no edge.\<close>

definition definedNodes :: "node_ref option list \<Rightarrow> node_ref list" where
  "definedNodes os = List.map_filter (\<lambda>x. x) os"

text \<open>\<^verbatim>\<open>GraphNodeCollection.dependOn\<close>: every member comes to depend on the given nodes.\<close>

fun collection_dependOn :: "node_ref list \<Rightarrow> node_ref list \<Rightarrow> GraphFromBlueprint \<Rightarrow> GraphFromBlueprint" where
  "collection_dependOn [] ds st = st"
| "collection_dependOn (n # ns) ds st = collection_dependOn ns ds (dependOn n ds st)"

section \<open>The compiler\<close>

text \<open>
  \<^verbatim>\<open>topLevelGraph(name)\<close>: the root's child of that name, made (with no annotation) and
  added to the root when there is none.
\<close>

definition topLevelGraph :: "string \<Rightarrow> GraphFromBlueprint \<Rightarrow> error + node_ref \<times> GraphFromBlueprint" where
  "topLevelGraph name st =
     (case tryGetChild (graph st) name st of
        Some ret \<Rightarrow> Inr (ret, st)
      | None \<Rightarrow>
          (case GraphNode_of name None st of
             (ret, st1) \<Rightarrow>
               (case Graph_add (graph st1) [ret] st1 of
                  Inl e \<Rightarrow> Inl e
                | Inr st2 \<Rightarrow> Inr (ret, st2))))"

text \<open>
  The loop of \<^verbatim>\<open>addAndRecurse\<close> over \<^verbatim>\<open>step.dependencySteps\<close>; \<open>recurse\<close> is the
  recursive call.
\<close>

fun addAndRecurse_deps :: "(step_ref \<Rightarrow> node_ref \<Rightarrow> GraphFromBlueprint \<Rightarrow> error + node_ref \<times> GraphFromBlueprint)
    \<Rightarrow> node_ref \<Rightarrow> node_ref \<Rightarrow> step_ref list \<Rightarrow> GraphFromBlueprint \<Rightarrow> error + GraphFromBlueprint" where
  "addAndRecurse_deps recurse node parent [] st = Inr st"
| "addAndRecurse_deps recurse node parent (dep # deps) st =
     (case recurse dep parent st of
        Inl e \<Rightarrow> Inl e
      | Inr (producerNode, st1) \<Rightarrow>
          addAndRecurse_deps recurse node parent deps (dependOn node [producerNode] st1))"

text \<open>
  \<^verbatim>\<open>addAndRecurse(step, parent)\<close>. The first argument bounds the depth of the
  recursion: a call at depth bound 0 does not return.
\<close>

primrec addAndRecurse :: "nat \<Rightarrow> Objects \<Rightarrow> step_ref \<Rightarrow> node_ref \<Rightarrow> GraphFromBlueprint
    \<Rightarrow> error + node_ref \<times> GraphFromBlueprint" where
  "addAndRecurse 0 W = (\<lambda>step parent st. Inl OutOfFuel)"
| "addAndRecurse (Suc fuel) W = (\<lambda>step parent st.
     case added st step of
       Some previous \<Rightarrow> Inr (previous, st)
     | None \<Rightarrow>
         (case GraphNode_of (step_id (steps W step)) (Some (StepAnn step None)) st of
            (node, st1) \<Rightarrow>
              (case (if isCodePipelineSource (steps W step) then topLevelGraph ''Source'' st1
                     else Inr (parent, st1)) of
                 Inl e \<Rightarrow> Inl e
               | Inr (parent', st2) \<Rightarrow>
                   (case Graph_add parent' [node] st2 of
                      Inl e \<Rightarrow> Inl e
                    | Inr st3 \<Rightarrow>
                        (case addAndRecurse_deps (addAndRecurse fuel W) node parent'
                                (dependencySteps (steps W step))
                                (st3\<lparr>added := (added st3)(step \<mapsto> node)\<rparr>) of
                           Inl e \<Rightarrow> Inl e
                         | Inr st4 \<Rightarrow> Inr (node, st4))))))"

definition addBuildStep :: "nat \<Rightarrow> Objects \<Rightarrow> step_ref \<Rightarrow> GraphFromBlueprint
    \<Rightarrow> error + node_ref \<times> GraphFromBlueprint" where
  "addBuildStep fuel W step st =
     (case topLevelGraph ''Build'' st of
        Inl e \<Rightarrow> Inl e
      | Inr (build, st1) \<Rightarrow> addAndRecurse fuel W step build st1)"

text \<open>The decimal numeral of a counter, as a template literal prints it.\<close>

fun string_of_nat :: "nat \<Rightarrow> string" where
  "string_of_nat n =
     (if n < 10 then [''0123456789'' ! n]
      else string_of_nat (n div 10) @ [''0123456789'' ! (n mod 10)])"

declare string_of_nat.simps [simp del]

text \<open>\<^verbatim>\<open>publishAsset(stackAsset)\<close>, statement by statement.\<close>

definition publishAsset :: "StackAsset \<Rightarrow> GraphFromBlueprint \<Rightarrow> error + node_ref \<times> GraphFromBlueprint" where
  "publishAsset stackAsset st =
     (case topLevelGraph ''Assets'' st of
        Inl e \<Rightarrow> Inl e
      | Inr (assetsGraph, st1) \<Rightarrow>
          (case (case assetNodes st1 (assetId stackAsset) of
                   None \<Rightarrow> Inr st1
                 | Some assetNode \<Rightarrow>
                     (case data (heap st1 assetNode) of
                        Some (PublishAssets assets) \<Rightarrow>
                          Inr (if list_ex (\<lambda>a. assetSelector a = assetSelector stackAsset) assets
                               then st1
                               else st1\<lparr>heap := (heap st1)(assetNode := (heap st1 assetNode)
                                      \<lparr>data := Some (PublishAssets (assets @ [stackAsset]))\<rparr>)\<rparr>)
                      | _ \<Rightarrow>
                          Inl (WrongDataType assetNode
                                 (map_option type_of (data (heap st1 assetNode)))))) of
             Inl e \<Rightarrow> Inl e
           | Inr st2 \<Rightarrow>
               (case (if assetType stackAsset = FILE
                      then (''FileAsset'' @ string_of_nat (Suc (fileAssetCtr st2)),
                            st2\<lparr>fileAssetCtr := Suc (fileAssetCtr st2)\<rparr>)
                      else (''DockerAsset'' @ string_of_nat (Suc (dockerAssetCtr st2)),
                            st2\<lparr>dockerAssetCtr := Suc (dockerAssetCtr st2)\<rparr>)) of
                  (name, st3) \<Rightarrow>
                    (case GraphNode_of name (Some (PublishAssets [stackAsset])) st3 of
                       (newNode, st4) \<Rightarrow>
                         (case Graph_add assetsGraph [newNode]
                                 (st4\<lparr>assetNodes := (assetNodes st4)(assetId stackAsset \<mapsto> newNode)\<rparr>) of
                            Inl e \<Rightarrow> Inl e
                          | Inr st5 \<Rightarrow>
                              Inr (newNode,
                                   dependOn newNode (definedNodes [lastPreparationNode st5]) st5))))))"

text \<open>\<^verbatim>\<open>addPrePost(pre, post, parent)\<close>: its two loops, then the method.\<close>

fun addPrePost_pre :: "nat \<Rightarrow> Objects \<Rightarrow> node_ref list \<Rightarrow> node_ref \<Rightarrow> step_ref list
    \<Rightarrow> GraphFromBlueprint \<Rightarrow> error + GraphFromBlueprint" where
  "addPrePost_pre fuel W currentNodes parent [] st = Inr st"
| "addPrePost_pre fuel W currentNodes parent (p # ps) st =
     (case addAndRecurse fuel W p parent st of
        Inl e \<Rightarrow> Inl e
      | Inr (preNode, st1) \<Rightarrow>
          addPrePost_pre fuel W currentNodes parent ps
            (collection_dependOn currentNodes [preNode] st1))"

fun addPrePost_post :: "nat \<Rightarrow> Objects \<Rightarrow> node_ref list \<Rightarrow> node_ref \<Rightarrow> step_ref list
    \<Rightarrow> GraphFromBlueprint \<Rightarrow> error + GraphFromBlueprint" where
  "addPrePost_post fuel W currentNodes parent [] st = Inr st"
| "addPrePost_post fuel W currentNodes parent (p # ps) st =
     (case addAndRecurse fuel W p parent st of
        Inl e \<Rightarrow> Inl e
      | Inr (postNode, st1) \<Rightarrow>
          addPrePost_post fuel W currentNodes parent ps (dependOn postNode currentNodes st1))"

definition addPrePost :: "nat \<Rightarrow> Objects \<Rightarrow> step_ref list \<Rightarrow> step_ref list \<Rightarrow> node_ref
    \<Rightarrow> GraphFromBlueprint \<Rightarrow> error + GraphFromBlueprint" where
  "addPrePost fuel W pre post parent st =
     (case addPrePost_pre fuel W (children (heap st parent)) parent pre st of
        Inl e \<Rightarrow> Inl e
      | Inr st1 \<Rightarrow> addPrePost_post fuel W (children (heap st parent)) parent post st1)"

text \<open>\<^verbatim>\<open>addStage(stage)\<close>: the loop over a stack's required assets.\<close>

fun addStage_assets :: "node_ref \<Rightarrow> StackAsset list \<Rightarrow> GraphFromBlueprint \<Rightarrow> error + GraphFromBlueprint" where
  "addStage_assets prepare [] st = Inr st"
| "addStage_assets prepare (asset # assets) st =
     (case publishAsset asset st of
        Inl e \<Rightarrow> Inl e
      | Inr (assetNode, st1) \<Rightarrow> addStage_assets prepare assets (dependOn prepare [assetNode] st1))"

text \<open>The first loop over \<^verbatim>\<open>stage.stacks\<close>; \<open>stackGraphs\<close> is the local map.\<close>

fun addStage_stacks :: "nat \<Rightarrow> Objects \<Rightarrow> node_ref \<Rightarrow> stack_ref list \<Rightarrow> (stack_ref \<rightharpoonup> node_ref)
    \<Rightarrow> GraphFromBlueprint \<Rightarrow> error + (stack_ref \<rightharpoonup> node_ref) \<times> GraphFromBlueprint" where
  "addStage_stacks fuel W retGraph [] stackGraphs st = Inr (stackGraphs, st)"
| "addStage_stacks fuel W retGraph (stack # rest) stackGraphs st =
     (case Graph_of (stackName (stackDeployments W stack)) (Some (StackGroup stack)) [] st of
        Inl e \<Rightarrow> Inl e
      | Inr (stackGraph, st1) \<Rightarrow>
     (case GraphNode_of ''Prepare'' (Some (Prepare stack)) st1 of (prepare, st2) \<Rightarrow>
     (case GraphNode_of ''Deploy'' (Some (Execute stack)) st2 of (deploy, st3) \<Rightarrow>
     (case Graph_add stackGraph [prepare, deploy] st3 of
        Inl e \<Rightarrow> Inl e
      | Inr st4 \<Rightarrow>
     (case (case customCloudAssembly (stackDeployments W stack) of
              Some (Some fs) \<Rightarrow> Some fs
            | _ \<Rightarrow> cloudAssemblyFileSet st4) of
        None \<Rightarrow> Inl TypeError
      | Some cloudAssembly \<Rightarrow>
     (case addAndRecurse fuel W (producer cloudAssembly) retGraph (dependOn deploy [prepare] st4) of
        Inl e \<Rightarrow> Inl e
      | Inr (producerNode, st5) \<Rightarrow>
     (case addStage_assets prepare (requiredAssets (stackDeployments W stack))
             (dependOn prepare [producerNode] st5) of
        Inl e \<Rightarrow> Inl e
      | Inr st6 \<Rightarrow>
          addStage_stacks fuel W retGraph rest (stackGraphs(stack \<mapsto> stackGraph)) st6)))))))"

text \<open>The second loop over \<^verbatim>\<open>stage.stacks\<close>, and its inner loop over \<^verbatim>\<open>stack.dependsOnStacks\<close>.\<close>

fun addStage_dependsOn :: "(stack_ref \<rightharpoonup> node_ref) \<Rightarrow> stack_ref \<Rightarrow> stack_ref list
    \<Rightarrow> GraphFromBlueprint \<Rightarrow> GraphFromBlueprint" where
  "addStage_dependsOn stackGraphs stack [] st = st"
| "addStage_dependsOn stackGraphs stack (dep # deps) st =
     addStage_dependsOn stackGraphs stack deps
       (case stackGraphs stack of
          None \<Rightarrow> st
        | Some g \<Rightarrow> dependOn g (definedNodes [stackGraphs dep]) st)"

fun addStage_order :: "Objects \<Rightarrow> (stack_ref \<rightharpoonup> node_ref) \<Rightarrow> stack_ref list
    \<Rightarrow> GraphFromBlueprint \<Rightarrow> GraphFromBlueprint" where
  "addStage_order W stackGraphs [] st = st"
| "addStage_order W stackGraphs (stack # rest) st =
     addStage_order W stackGraphs rest
       (addStage_dependsOn stackGraphs stack (dependsOnStacks (stackDeployments W stack)) st)"

definition addStage :: "nat \<Rightarrow> Objects \<Rightarrow> StageDeployment \<Rightarrow> GraphFromBlueprint
    \<Rightarrow> error + node_ref \<times> GraphFromBlueprint" where
  "addStage fuel W stage st =
     (case Graph_of (stageName stage) (Some Group) [] st of
        Inl e \<Rightarrow> Inl e
      | Inr (retGraph, st1) \<Rightarrow>
          (case addStage_stacks fuel W retGraph (stacks stage) Map.empty st1 of
             Inl e \<Rightarrow> Inl e
           | Inr (stackGraphs, st2) \<Rightarrow>
               (case addPrePost fuel W (stage_pre stage) (stage_post stage) retGraph
                       (addStage_order W stackGraphs (stacks stage) st2) of
                  Inl e \<Rightarrow> Inl e
                | Inr st3 \<Rightarrow> Inr (retGraph, st3))))"

text \<open>\<^verbatim>\<open>wave.stages.map(s => this.addStage(s))\<close>\<close>

fun addStages :: "nat \<Rightarrow> Objects \<Rightarrow> StageDeployment list \<Rightarrow> GraphFromBlueprint
    \<Rightarrow> error + node_ref list \<times> GraphFromBlueprint" where
  "addStages fuel W [] st = Inr ([], st)"
| "addStages fuel W (s # ss) st =
     (case addStage fuel W s st of
        Inl e \<Rightarrow> Inl e
      | Inr (g, st1) \<Rightarrow>
          (case addStages fuel W ss st1 of
             Inl e \<Rightarrow> Inl e
           | Inr (gs, st2) \<Rightarrow> Inr (g # gs, st2)))"

definition addWave :: "nat \<Rightarrow> Objects \<Rightarrow> Wave \<Rightarrow> GraphFromBlueprint
    \<Rightarrow> error + node_ref \<times> GraphFromBlueprint" where
  "addWave fuel W wave st =
     (case (case stages wave of
              [stage] \<Rightarrow> addStage fuel W stage st
            | ss \<Rightarrow>
                (case addStages fuel W ss st of
                   Inl e \<Rightarrow> Inl e
                 | Inr (gs, st1) \<Rightarrow> Graph_of (wave_id wave) (Some Group) gs st1)) of
        Inl e \<Rightarrow> Inl e
      | Inr (retGraph, st2) \<Rightarrow>
          (case addPrePost fuel W (wave_pre wave) (wave_post wave) retGraph st2 of
             Inl e \<Rightarrow> Inl e
           | Inr st3 \<Rightarrow>
               Inr (retGraph, dependOn retGraph (definedNodes [lastPreparationNode st3]) st3)))"

text \<open>\<^verbatim>\<open>blueprint.waves.map(w => this.addWave(w))\<close>\<close>

fun addWaves :: "nat \<Rightarrow> Objects \<Rightarrow> Wave list \<Rightarrow> GraphFromBlueprint
    \<Rightarrow> error + node_ref list \<times> GraphFromBlueprint" where
  "addWaves fuel W [] st = Inr ([], st)"
| "addWaves fuel W (w # ws) st =
     (case addWave fuel W w st of
        Inl e \<Rightarrow> Inl e
      | Inr (g, st1) \<Rightarrow>
          (case addWaves fuel W ws st1 of
             Inl e \<Rightarrow> Inl e
           | Inr (gs, st2) \<Rightarrow> Inr (g # gs, st2)))"

text \<open>The constructor's last loop: \<^verbatim>\<open>waves[i].dependOn(waves[i - 1])\<close> for \<open>i\<close> from 1.\<close>

definition sequentialWaves :: "node_ref list \<Rightarrow> GraphFromBlueprint \<Rightarrow> GraphFromBlueprint" where
  "sequentialWaves ws st = fold (\<lambda>i. dependOn (ws ! i) [ws ! (i - 1)]) [1 ..< length ws] st"

text \<open>
  The field initialisers: an empty root group, empty memo tables, counters at 0. The
  fields the constructor assigns are absent until then.
\<close>

definition initial :: GraphFromBlueprint where
  "initial =
     \<lparr>heap = (\<lambda>r. \<lparr>node_id = [], data = None, children = [], dependencies = []\<rparr>)
              (0 := \<lparr>node_id = [], data = Some Group, children = [], dependencies = []\<rparr>),
      next_ref = 1, graph = 0, cloudAssemblyFileSet = None, added = Map.empty,
      assetNodes = Map.empty, synthNode = None, selfMutateNode = None,
      lastPreparationNode = None, fileAssetCtr = 0, dockerAssetCtr = 0\<rparr>"

text \<open>\<^verbatim>\<open>this.synthNode.data.isBuildStep = true\<close>, when the node's annotation is a step's.\<close>

definition markBuildStep :: "node_ref \<Rightarrow> GraphFromBlueprint \<Rightarrow> GraphFromBlueprint" where
  "markBuildStep n st =
     (case data (heap st n) of
        Some (StepAnn s b) \<Rightarrow>
          st\<lparr>heap := (heap st)(n := (heap st n)\<lparr>data := Some (StepAnn s (Some True))\<rparr>)\<rparr>
      | _ \<Rightarrow> st)"

text \<open>\<^verbatim>\<open>blueprint.synthStep.primaryOutput?.primaryOutput\<close>\<close>

definition cloudAssemblyOf :: "Step \<Rightarrow> FileSet option" where
  "cloudAssemblyOf s = (case primaryOutput s of None \<Rightarrow> None | Some fs \<Rightarrow> fs_primaryOutput fs)"

text \<open>The block under \<^verbatim>\<open>if (props.selfMutation)\<close>.\<close>

definition addSelfMutation :: "GraphFromBlueprint \<Rightarrow> error + GraphFromBlueprint" where
  "addSelfMutation st =
     (case Graph_of ''UpdatePipeline'' (Some Group) [] st of
        Inl e \<Rightarrow> Inl e
      | Inr (stage, st1) \<Rightarrow>
     (case Graph_add (graph st1) [stage] st1 of
        Inl e \<Rightarrow> Inl e
      | Inr st2 \<Rightarrow>
     (case GraphNode_of ''SelfMutate'' (Some SelfUpdate) st2 of (n, st3) \<Rightarrow>
     (case Graph_add stage [n] (st3\<lparr>selfMutateNode := Some n\<rparr>) of
        Inl e \<Rightarrow> Inl e
      | Inr st4 \<Rightarrow>
          Inr ((dependOn n (definedNodes [synthNode st4]) st4)\<lparr>lastPreparationNode := Some n\<rparr>)))))"

text \<open>
  The constructor, from the initialised fields. It returns the object, or the error it
  throws. \<open>construct_waves\<close> is its part from \<^verbatim>\<open>blueprint.waves.map\<close> on, with the local
  array \<^verbatim>\<open>waves\<close> kept beside the object.
\<close>

definition construct_waves :: "nat \<Rightarrow> Objects \<Rightarrow> Wave list \<Rightarrow> GraphFromBlueprint
    \<Rightarrow> error + node_ref list \<times> GraphFromBlueprint" where
  "construct_waves fuel W wl st =
     (case addWaves fuel W wl st of
        Inl e \<Rightarrow> Inl e
      | Inr (ws, st1) \<Rightarrow> Inr (ws, sequentialWaves ws st1))"

definition construct_prepare :: "nat \<Rightarrow> Objects \<Rightarrow> Blueprint \<Rightarrow> GraphFromBlueprintProps
    \<Rightarrow> error + GraphFromBlueprint" where
  "construct_prepare fuel W blueprint props =
     (case addBuildStep fuel W (synthStep blueprint) initial of
        Inl e \<Rightarrow> Inl e
      | Inr (sn, st1) \<Rightarrow>
          (let st2 = (markBuildStep sn (st1\<lparr>synthNode := Some sn\<rparr>))\<lparr>lastPreparationNode := Some sn\<rparr>
           in case cloudAssemblyOf (steps W (synthStep blueprint)) of
                None \<Rightarrow> Inl (MissingOutput (synthStep blueprint))
              | Some cloudAssembly \<Rightarrow>
                  (if selfMutation props = Some True
                   then addSelfMutation (st2\<lparr>cloudAssemblyFileSet := Some cloudAssembly\<rparr>)
                   else Inr (st2\<lparr>cloudAssemblyFileSet := Some cloudAssembly\<rparr>))))"

definition construct :: "nat \<Rightarrow> Objects \<Rightarrow> Blueprint \<Rightarrow> GraphFromBlueprintProps
    \<Rightarrow> error + GraphFromBlueprint" where
  "construct fuel W blueprint props =
     (case construct_prepare fuel W blueprint props of
        Inl e \<Rightarrow> Inl e
      | Inr st \<Rightarrow>
          (case construct_waves fuel W (waves blueprint) st of
             Inl e \<Rightarrow> Inl e
           | Inr (ws, st1) \<Rightarrow> Inr st1))"

section \<open>The Pipeline wrapper\<close>

text \<open>
  \<^verbatim>\<open>Pipeline\<close> holds a blueprint, an engine and the flag \<^verbatim>\<open>built\<close>. The blueprint's
  \<^verbatim>\<open>addStage\<close>/\<^verbatim>\<open>addWave\<close> and the engine's \<^verbatim>\<open>buildDeployment\<close> belong to
  collaborators outside the sources, so they are parameters: each returns what it
  throws, if it throws, and the collaborator's state afterwards. A method of the wrapper
  returns what it throws or returns, and the object afterwards, so that a caller who
  catches the exception can go on with the same object. \<open>engine_calls\<close> and
  \<open>engine_returns\<close> are not fields of the class: they count the invocations of
  \<^verbatim>\<open>engine.buildDeployment\<close> and those of them that returned normally.
\<close>

record ('b, 'e) Pipeline =
  blueprint :: 'b
  engine :: 'e
  built :: bool
  engine_calls :: nat
  engine_returns :: nat

definition Pipeline_new :: "'b \<Rightarrow> 'e \<Rightarrow> ('b, 'e) Pipeline" where
  "Pipeline_new bp eng = \<lparr>blueprint = bp, engine = eng, built = False, engine_calls = 0,
       engine_returns = 0\<rparr>"

definition already_built_message :: string where
  "already_built_message = ''build() has already been called: can only call it once''"

definition no_more_stages_message :: string where
  "no_more_stages_message =
     ''addStage: can'' @ [CHR 0x27] @ ''t add Stages anymore after build() has been called''"

definition Pipeline_addStage :: "('s \<Rightarrow> 'b \<Rightarrow> (string + 'r) \<times> 'b) \<Rightarrow> 's \<Rightarrow> ('b, 'e) Pipeline
    \<Rightarrow> (string + 'r) \<times> ('b, 'e) Pipeline" where
  "Pipeline_addStage blueprint_addStage stage p =
     (if built p then (Inl no_more_stages_message, p)
      else (case blueprint_addStage stage (blueprint p) of
              (r, bp) \<Rightarrow> (r, p\<lparr>blueprint := bp\<rparr>)))"

definition Pipeline_addWave :: "('w \<Rightarrow> 'b \<Rightarrow> (string + 'r) \<times> 'b) \<Rightarrow> 'w \<Rightarrow> ('b, 'e) Pipeline
    \<Rightarrow> (string + 'r) \<times> ('b, 'e) Pipeline" where
  "Pipeline_addWave blueprint_addWave wid p =
     (if built p then (Inl no_more_stages_message, p)
      else (case blueprint_addWave wid (blueprint p) of
              (r, bp) \<Rightarrow> (r, p\<lparr>blueprint := bp\<rparr>)))"

definition build :: "('b \<Rightarrow> 'e \<Rightarrow> string option \<times> 'e) \<Rightarrow> ('b, 'e) Pipeline
    \<Rightarrow> (string + unit) \<times> ('b, 'e) Pipeline" where
  "build buildDeployment p =
     (if built p then (Inl already_built_message, p)
      else (case buildDeployment (blueprint p) (engine p) of
              (Some thrown, eng) \<Rightarrow>
                (Inl thrown, p\<lparr>engine := eng, engine_calls := Suc (engine_calls p)\<rparr>)
            | (None, eng) \<Rightarrow>
                (Inr (), p\<lparr>engine := eng, engine_calls := Suc (engine_calls p),
                           engine_returns := Suc (engine_returns p), built := True\<rparr>)))"

definition prepare :: "('b \<Rightarrow> 'e \<Rightarrow> string option \<times> 'e) \<Rightarrow> ('b, 'e) Pipeline
    \<Rightarrow> (string + unit) \<times> ('b, 'e) Pipeline" where
  "prepare buildDeployment p = (if \<not> built p then build buildDeployment p else (Inr (), p))"

text \<open>
  A caller of the wrapper: a sequence of method calls on one \<^verbatim>\<open>Pipeline\<close> object, each
  exception caught, so that the next call is made on the object the previous one left.
\<close>

datatype ('s, 'w) call = CallAddStage 's | CallAddWave 'w | CallBuild | CallPrepare

definition invoke :: "('b \<Rightarrow> 'e \<Rightarrow> string option \<times> 'e) \<Rightarrow> ('s \<Rightarrow> 'b \<Rightarrow> (string + 'r) \<times> 'b)
    \<Rightarrow> ('w \<Rightarrow> 'b \<Rightarrow> (string + 'r) \<times> 'b) \<Rightarrow> ('s, 'w) call \<Rightarrow> ('b, 'e) Pipeline
    \<Rightarrow> ('b, 'e) Pipeline" where
  "invoke buildDeployment blueprint_addStage blueprint_addWave c p =
     (case c of
        CallAddStage stage \<Rightarrow> snd (Pipeline_addStage blueprint_addStage stage p)
      | CallAddWave wid \<Rightarrow> snd (Pipeline_addWave blueprint_addWave wid p)
      | CallBuild \<Rightarrow> snd (build buildDeployment p)
      | CallPrepare \<Rightarrow> snd (prepare buildDeployment p))"

definition run :: "('b \<Rightarrow> 'e \<Rightarrow> string option \<times> 'e) \<Rightarrow> ('s \<Rightarrow> 'b \<Rightarrow> (string + 'r) \<times> 'b)
    \<Rightarrow> ('w \<Rightarrow> 'b \<Rightarrow> (string + 'r) \<times> 'b) \<Rightarrow> ('s, 'w) call list \<Rightarrow> ('b, 'e) Pipeline
    \<Rightarrow> ('b, 'e) Pipeline" where
  "run buildDeployment blueprint_addStage blueprint_addWave cs p =
     fold (invoke buildDeployment blueprint_addStage blueprint_addWave) cs p"

section \<open>Predicates of the proofs\<close>

text \<open>
  The relations between the state before and after a call, the invariants of the states
  the compiler goes through, and names for the stages of the longer functions, as the
  proofs below use them.
\<close>

definition same_fields :: "GraphFromBlueprint \<Rightarrow> GraphFromBlueprint \<Rightarrow> bool" where
  "same_fields st st' \<longleftrightarrow>
     graph st' = graph st \<and> cloudAssemblyFileSet st' = cloudAssemblyFileSet st \<and>
     assetNodes st' = assetNodes st \<and> synthNode st' = synthNode st \<and>
     selfMutateNode st' = selfMutateNode st \<and> lastPreparationNode st' = lastPreparationNode st \<and>
     fileAssetCtr st' = fileAssetCtr st \<and> dockerAssetCtr st' = dockerAssetCtr st"

definition memo_ext :: "GraphFromBlueprint \<Rightarrow> GraphFromBlueprint \<Rightarrow> bool" where
  "memo_ext st st' \<longleftrightarrow>
     (\<forall>s n. added st s = Some n \<longrightarrow> added st' s = Some n) \<and>
     (\<forall>s n. added st' s = Some n \<longrightarrow>
        added st s = Some n \<or> (next_ref st \<le> n \<and> n < next_ref st'))"

definition deps_same :: "node_ref set \<Rightarrow> GraphFromBlueprint \<Rightarrow> GraphFromBlueprint \<Rightarrow> bool" where
  "deps_same X st st' \<longleftrightarrow> (\<forall>n\<in>X. dependencies (heap st' n) = dependencies (heap st n))"

definition shape_same :: "GraphFromBlueprint \<Rightarrow> GraphFromBlueprint \<Rightarrow> bool" where
  "shape_same st st' \<longleftrightarrow>
     (\<forall>n<next_ref st. node_id (heap st' n) = node_id (heap st n) \<and>
        data (heap st' n) = data (heap st n) \<and>
        (\<exists>cs. children (heap st' n) = children (heap st n) @ cs))"

definition children_fresh :: "GraphFromBlueprint \<Rightarrow> GraphFromBlueprint \<Rightarrow> bool" where
  "children_fresh st st' \<longleftrightarrow>
     (\<forall>x c. c \<in> set (children (heap st' x)) \<longrightarrow>
        c \<in> set (children (heap st x)) \<or> (next_ref st \<le> c \<and> c < next_ref st'))"

definition frame :: "node_ref set \<Rightarrow> GraphFromBlueprint \<Rightarrow> GraphFromBlueprint \<Rightarrow> bool" where
  "frame X st st' \<longleftrightarrow>
     next_ref st \<le> next_ref st' \<and> same_fields st st' \<and> memo_ext st st' \<and>
     deps_same X st st' \<and> shape_same st st' \<and> children_fresh st st'"

definition place :: "Objects \<Rightarrow> step_ref \<Rightarrow> node_ref \<Rightarrow> GraphFromBlueprint
    \<Rightarrow> error + node_ref \<times> node_ref \<times> GraphFromBlueprint" where
  "place W step parent st =
     (case GraphNode_of (step_id (steps W step)) (Some (StepAnn step None)) st of
        (node, st1) \<Rightarrow>
          (case (if isCodePipelineSource (steps W step) then topLevelGraph ''Source'' st1
                 else Inr (parent, st1)) of
             Inl e \<Rightarrow> Inl e
           | Inr (parent', st2) \<Rightarrow>
               (case Graph_add parent' [node] st2 of
                  Inl e \<Rightarrow> Inl e
                | Inr st3 \<Rightarrow> Inr (node, parent', st3\<lparr>added := (added st3)(step \<mapsto> node)\<rparr>))))"

definition attach :: "node_ref \<Rightarrow> node_ref \<Rightarrow> GraphFromBlueprint \<Rightarrow> GraphFromBlueprint" where
  "attach g n st = st\<lparr>heap := (heap st)(g := (heap st g)\<lparr>children := children (heap st g) @ [n]\<rparr>)\<rparr>"

definition rec_ok :: "(step_ref \<Rightarrow> node_ref \<Rightarrow> GraphFromBlueprint \<Rightarrow> error + node_ref \<times> GraphFromBlueprint) \<Rightarrow> bool" where
  "rec_ok recurse \<longleftrightarrow>
     (\<forall>d p s r s'. recurse d p s = Inr (r, s') \<longrightarrow> frame {..<next_ref s} s s' \<and> added s' d = Some r)"

definition closed :: "Objects \<Rightarrow> step_ref list \<Rightarrow> bool" where
  "closed W xs \<longleftrightarrow> (\<forall>x\<in>set xs. set (dependencySteps (steps W x)) \<subseteq> set xs)"

definition unvisited :: "step_ref list \<Rightarrow> GraphFromBlueprint \<Rightarrow> nat" where
  "unvisited xs st = length (filter (\<lambda>x. added st x = None) xs)"

text \<open>
  A state is well formed when the root, every child and every memoized node is an
  allocated node. The initial state is, and step addition keeps it so.
\<close>

definition well_formed :: "GraphFromBlueprint \<Rightarrow> bool" where
  "well_formed st \<longleftrightarrow>
     graph st < next_ref st \<and>
     (\<forall>x c. c \<in> set (children (heap st x)) \<longrightarrow> c < next_ref st) \<and>
     (\<forall>s n. added st s = Some n \<longrightarrow> n < next_ref st)"



definition grows :: "GraphFromBlueprint \<Rightarrow> GraphFromBlueprint \<Rightarrow> bool" where
  "grows st st' \<longleftrightarrow>
     next_ref st \<le> next_ref st' \<and> same_fields st st' \<and> memo_ext st st' \<and>
     shape_same st st' \<and> children_fresh st st' \<and>
     (\<forall>n<next_ref st. set (dependencies (heap st n)) \<subseteq> set (dependencies (heap st' n)))"

definition memo_wf :: "GraphFromBlueprint \<Rightarrow> bool" where
  "memo_wf st \<longleftrightarrow> (\<forall>s n. added st s = Some n \<longrightarrow> n < next_ref st)"




definition plain_error :: "error \<Rightarrow> bool" where
  "plain_error e = (case e of MissingOutput s \<Rightarrow> False | WrongDataType n d \<Rightarrow> False | _ \<Rightarrow> True)"

definition assets_ok :: "GraphFromBlueprint \<Rightarrow> bool" where
  "assets_ok st \<longleftrightarrow>
     (\<forall>k n. assetNodes st k = Some n \<longrightarrow>
        n < next_ref st \<and> (\<exists>xs. data (heap st n) = Some (PublishAssets xs)))"

fun ann_kind :: "GraphAnnotation option \<Rightarrow> GraphAnnotation option" where
  "ann_kind (Some (PublishAssets xs)) = Some (PublishAssets [])"
| "ann_kind (Some (StepAnn s b)) = Some (StepAnn s None)"
| "ann_kind d = d"

definition step_ok :: "GraphFromBlueprint \<Rightarrow> GraphFromBlueprint \<Rightarrow> bool" where
  "step_ok st st' \<longleftrightarrow>
     next_ref st \<le> next_ref st' \<and> (assets_ok st \<longrightarrow> assets_ok st') \<and>
     cloudAssemblyFileSet st' = cloudAssemblyFileSet st \<and>
     (\<forall>n<next_ref st. ann_kind (data (heap st' n)) = ann_kind (data (heap st n)) \<and>
        set (dependencies (heap st n)) \<subseteq> set (dependencies (heap st' n)) \<and>
        set (children (heap st n)) \<subseteq> set (children (heap st' n)))"

definition publish_lookup :: "StackAsset \<Rightarrow> GraphFromBlueprint \<Rightarrow> error + GraphFromBlueprint" where
  "publish_lookup stackAsset st1 =
     (case assetNodes st1 (assetId stackAsset) of
        None \<Rightarrow> Inr st1
      | Some assetNode \<Rightarrow>
          (case data (heap st1 assetNode) of
             Some (PublishAssets assets) \<Rightarrow>
               Inr (if list_ex (\<lambda>a. assetSelector a = assetSelector stackAsset) assets
                    then st1
                    else st1\<lparr>heap := (heap st1)(assetNode := (heap st1 assetNode)
                           \<lparr>data := Some (PublishAssets (assets @ [stackAsset]))\<rparr>)\<rparr>)
           | _ \<Rightarrow>
               Inl (WrongDataType assetNode
                      (map_option type_of (data (heap st1 assetNode))))))"

definition publish_new :: "StackAsset \<Rightarrow> node_ref \<Rightarrow> GraphFromBlueprint
    \<Rightarrow> error + node_ref \<times> GraphFromBlueprint" where
  "publish_new stackAsset assetsGraph st2 =
     (case (if assetType stackAsset = FILE
            then (''FileAsset'' @ string_of_nat (Suc (fileAssetCtr st2)),
                  st2\<lparr>fileAssetCtr := Suc (fileAssetCtr st2)\<rparr>)
            else (''DockerAsset'' @ string_of_nat (Suc (dockerAssetCtr st2)),
                  st2\<lparr>dockerAssetCtr := Suc (dockerAssetCtr st2)\<rparr>)) of
        (name, st3) \<Rightarrow>
          (case GraphNode_of name (Some (PublishAssets [stackAsset])) st3 of
             (newNode, st4) \<Rightarrow>
               (case Graph_add assetsGraph [newNode]
                       (st4\<lparr>assetNodes := (assetNodes st4)(assetId stackAsset \<mapsto> newNode)\<rparr>) of
                  Inl e \<Rightarrow> Inl e
                | Inr st5 \<Rightarrow>
                    Inr (newNode,
                         dependOn newNode (definedNodes [lastPreparationNode st5]) st5))))"

definition stack_pair :: "Objects \<Rightarrow> stack_ref \<Rightarrow> GraphFromBlueprint
    \<Rightarrow> error + (node_ref \<times> node_ref \<times> node_ref \<times> GraphFromBlueprint)" where
  "stack_pair W stack st =
     (case Graph_of (stackName (stackDeployments W stack)) (Some (StackGroup stack)) [] st of
        Inl e \<Rightarrow> Inl e
      | Inr (stackGraph, st1) \<Rightarrow>
     (case GraphNode_of ''Prepare'' (Some (Prepare stack)) st1 of (prep, st2) \<Rightarrow>
     (case GraphNode_of ''Deploy'' (Some (Execute stack)) st2 of (depl, st3) \<Rightarrow>
     (case Graph_add stackGraph [prep, depl] st3 of
        Inl e \<Rightarrow> Inl e
      | Inr st4 \<Rightarrow> Inr (stackGraph, prep, depl, dependOn depl [prep] st4)))))"

definition stack_rest :: "nat \<Rightarrow> Objects \<Rightarrow> node_ref \<Rightarrow> stack_ref \<Rightarrow> node_ref
    \<Rightarrow> GraphFromBlueprint \<Rightarrow> error + GraphFromBlueprint" where
  "stack_rest fuel W retGraph stack prep st4 =
     (case (case customCloudAssembly (stackDeployments W stack) of
              Some (Some fs) \<Rightarrow> Some fs
            | _ \<Rightarrow> cloudAssemblyFileSet st4) of
        None \<Rightarrow> Inl TypeError
      | Some cloudAssembly \<Rightarrow>
     (case addAndRecurse fuel W (producer cloudAssembly) retGraph st4 of
        Inl e \<Rightarrow> Inl e
      | Inr (producerNode, st5) \<Rightarrow>
          addStage_assets prep (requiredAssets (stackDeployments W stack))
             (dependOn prep [producerNode] st5)))"

definition sg_ok :: "(stack_ref \<rightharpoonup> node_ref) \<Rightarrow> GraphFromBlueprint \<Rightarrow> bool" where
  "sg_ok sg st \<longleftrightarrow>
     (\<forall>s g. sg s = Some g \<longrightarrow>
        g < next_ref st \<and> data (heap st g) = Some (StackGroup s) \<and>
        (\<exists>p d. p < next_ref st \<and> d < next_ref st \<and>
           p \<in> set (children (heap st g)) \<and> d \<in> set (children (heap st g)) \<and>
           data (heap st p) = Some (Prepare s) \<and> data (heap st d) = Some (Execute s) \<and>
           p \<in> set (dependencies (heap st d))))"

definition stage_wired :: "Objects \<Rightarrow> StageDeployment \<Rightarrow> (stack_ref \<rightharpoonup> node_ref)
    \<Rightarrow> GraphFromBlueprint \<Rightarrow> bool" where
  "stage_wired W stage sg st \<longleftrightarrow>
     sg_ok sg st \<and> (\<forall>s\<in>set (stacks stage). sg s \<noteq> None) \<and>
     (\<forall>s2\<in>set (stacks stage). \<forall>s1\<in>set (dependsOnStacks (stackDeployments W s2)).
        \<forall>g1 g2. sg s1 = Some g1 \<and> sg s2 = Some g2 \<longrightarrow> g1 \<in> set (dependencies (heap st g2)))"

definition wave_graph :: "nat \<Rightarrow> Objects \<Rightarrow> Wave \<Rightarrow> GraphFromBlueprint
    \<Rightarrow> error + node_ref \<times> GraphFromBlueprint" where
  "wave_graph fuel W wave st =
     (case stages wave of
        [stage] \<Rightarrow> addStage fuel W stage st
      | ss \<Rightarrow>
          (case addStages fuel W ss st of
             Inl e \<Rightarrow> Inl e
           | Inr (gs, st1) \<Rightarrow> Graph_of (wave_id wave) (Some Group) gs st1))"

definition prepared :: "node_ref \<Rightarrow> FileSet \<Rightarrow> GraphFromBlueprint \<Rightarrow> GraphFromBlueprint" where
  "prepared sn ca st1 =
     ((markBuildStep sn (st1\<lparr>synthNode := Some sn\<rparr>))\<lparr>lastPreparationNode := Some sn\<rparr>)
       \<lparr>cloudAssemblyFileSet := Some ca\<rparr>"

definition built_once :: "('b, 'e) Pipeline \<Rightarrow> bool" where
  "built_once p \<longleftrightarrow> engine_returns p = (if built p then 1 else 0) \<and>
     engine_returns p \<le> engine_calls p"

text \<open>
  Every node annotated with a Step is the memo's node for that Step, and the memo's node
  for a Step is an allocated node annotated with it: no Step has two nodes.
\<close>

definition step_nodes :: "GraphFromBlueprint \<Rightarrow> bool" where
  "step_nodes st \<longleftrightarrow>
     (\<forall>n s b. n < next_ref st \<and> data (heap st n) = Some (StepAnn s b) \<longrightarrow> added st s = Some n) \<and>
     (\<forall>s n. added st s = Some n \<longrightarrow>
        n < next_ref st \<and> (\<exists>b. data (heap st n) = Some (StepAnn s b)))"

text \<open>
  The states a recursion of \<^verbatim>\<open>addAndRecurse\<close> goes through after a given one: each is
  reached by creating and attaching the node of a Step not yet visited (\<open>place\<close>) or by
  adding dependency edges to a node. A call that returns is a sequence of such steps.
\<close>

inductive reaches :: "Objects \<Rightarrow> GraphFromBlueprint \<Rightarrow> GraphFromBlueprint \<Rightarrow> bool" for W where
  reaches_refl: "reaches W st st"
| reaches_place: "reaches W st st1 \<Longrightarrow> added st1 other = None
    \<Longrightarrow> place W other q st1 = Inr (n, q', st2) \<Longrightarrow> reaches W st st2"
| reaches_dependOn: "reaches W st st1 \<Longrightarrow> reaches W st (dependOn n ds st1)"

section \<open>Example inputs\<close>

text \<open>
  A blueprint of one wave and one stage, whose two stacks require the same file asset
  (one \<open>assetId\<close>) at two destinations (two \<open>assetSelector\<close>s). Every step reference
  denotes the synth step, whose file set it produces itself.
\<close>

definition synth_output :: FileSet where
  "synth_output = FileSet 0 (Some (FileSet 0 None))"

definition two_stacks_objects :: Objects where
  "two_stacks_objects =
     \<lparr>steps = (\<lambda>r. \<lparr>step_id = ''Synth'', isCodePipelineSource = False, dependencySteps = [],
                     primaryOutput = Some synth_output\<rparr>),
      stackDeployments = (\<lambda>r.
        if r = 0
        then \<lparr>stackName = ''Stack1'',
              requiredAssets = [\<lparr>assetId = ''abc'', assetSelector = ''region1'', assetType = FILE\<rparr>],
              dependsOnStacks = [], customCloudAssembly = None\<rparr>
        else \<lparr>stackName = ''Stack2'',
              requiredAssets = [\<lparr>assetId = ''abc'', assetSelector = ''region2'', assetType = FILE\<rparr>],
              dependsOnStacks = [], customCloudAssembly = None\<rparr>)\<rparr>"

definition two_stacks_blueprint :: Blueprint where
  "two_stacks_blueprint =
     \<lparr>synthStep = 0,
      waves = [\<lparr>wave_id = ''Wave'',
                stages = [\<lparr>stageName = ''Prod'', stacks = [0, 1], stage_pre = [], stage_post = []\<rparr>],
                wave_pre = [], wave_post = []\<rparr>]\<rparr>"

text \<open>
  Four steps whose dependencies form a diamond closed into a cycle: A depends on B and
  C, both depend on D, and D depends on A.
\<close>

definition plain_step :: "string \<Rightarrow> step_ref list \<Rightarrow> Step" where
  "plain_step name ds =
     \<lparr>step_id = name, isCodePipelineSource = False, dependencySteps = ds, primaryOutput = None\<rparr>"

definition cyclic_objects :: Objects where
  "cyclic_objects =
     \<lparr>steps = (\<lambda>r. if r = 0 then plain_step ''A'' [1, 2]
                   else if r = 1 then plain_step ''B'' [3]
                   else if r = 2 then plain_step ''C'' [3]
                   else plain_step ''D'' [0]),
      stackDeployments = (\<lambda>r. \<lparr>stackName = [], requiredAssets = [], dependsOnStacks = [],
                                 customCloudAssembly = None\<rparr>)\<rparr>"

text \<open>
  The state inside the recursion for A once the nodes of A and B have been made (nodes
  1 and 2), in which D is first reached, through B; and, from the state that call for D
  leaves, the state in which D is reached again, through C: B has been made to depend on
  D's node, A on B's node, and the node of C has been made.
\<close>

definition diamond_state :: GraphFromBlueprint where
  "diamond_state =
     (case place cyclic_objects 0 0 initial of
        Inl e \<Rightarrow> initial
      | Inr (a, p, st) \<Rightarrow>
          (case place cyclic_objects 1 p st of Inl e \<Rightarrow> initial | Inr (b, p', st') \<Rightarrow> st'))"

definition diamond_later :: "GraphFromBlueprint \<Rightarrow> GraphFromBlueprint" where
  "diamond_later st =
     (case place cyclic_objects 2 0 (dependOn 1 [2] (dependOn 2 [3] st)) of
        Inl e \<Rightarrow> st
      | Inr (c, p, st') \<Rightarrow> st')"

text \<open>
  Two source steps, and the object once the "Build" group has been made (it is node 1).
\<close>

definition source_step :: "string \<Rightarrow> step_ref list \<Rightarrow> Step" where
  "source_step name ds =
     \<lparr>step_id = name, isCodePipelineSource = True, dependencySteps = ds, primaryOutput = None\<rparr>"

definition source_objects :: Objects where
  "source_objects =
     \<lparr>steps = (\<lambda>r. if r = 0 then source_step ''Repo'' [] else source_step ''Repo2'' []),
      stackDeployments = (\<lambda>r. \<lparr>stackName = [], requiredAssets = [], dependsOnStacks = [],
                                 customCloudAssembly = None\<rparr>)\<rparr>"

definition build_state :: GraphFromBlueprint where
  "build_state = (case topLevelGraph ''Build'' initial of Inr (g, st) \<Rightarrow> st | Inl e \<Rightarrow> initial)"



text \<open>
  A stage whose stacks are listed as Stack2, Stack1, where Stack2 declares a dependency
  on Stack1, and a blueprint of one wave with this stage. Then a blueprint of three waves
  W0, W1, W2 of one empty stage each; a synth step without output; a synth step without
  output that depends on a step of the same name; and a state whose asset memo names the
  root group.
\<close>

definition ordered_objects :: Objects where
  "ordered_objects =
     \<lparr>steps = (\<lambda>r. \<lparr>step_id = ''Synth'', isCodePipelineSource = False, dependencySteps = [],
                     primaryOutput = Some synth_output\<rparr>),
      stackDeployments = (\<lambda>r.
        if r = 0
        then \<lparr>stackName = ''Stack1'', requiredAssets = [], dependsOnStacks = [],
              customCloudAssembly = None\<rparr>
        else \<lparr>stackName = ''Stack2'', requiredAssets = [], dependsOnStacks = [0],
              customCloudAssembly = None\<rparr>)\<rparr>"

definition ordered_stage :: StageDeployment where
  "ordered_stage = \<lparr>stageName = ''Prod'', stacks = [1, 0], stage_pre = [], stage_post = []\<rparr>"

definition ordered_blueprint :: Blueprint where
  "ordered_blueprint =
     \<lparr>synthStep = 0,
      waves = [\<lparr>wave_id = ''Wave'', stages = [ordered_stage], wave_pre = [], wave_post = []\<rparr>]\<rparr>"

definition three_waves_blueprint :: Blueprint where
  "three_waves_blueprint =
     \<lparr>synthStep = 0,
      waves = [\<lparr>wave_id = ''W0'',
                stages = [\<lparr>stageName = ''A'', stacks = [], stage_pre = [], stage_post = []\<rparr>],
                wave_pre = [], wave_post = []\<rparr>,
               \<lparr>wave_id = ''W1'',
                stages = [\<lparr>stageName = ''B'', stacks = [], stage_pre = [], stage_post = []\<rparr>],
                wave_pre = [], wave_post = []\<rparr>,
               \<lparr>wave_id = ''W2'',
                stages = [\<lparr>stageName = ''C'', stacks = [], stage_pre = [], stage_post = []\<rparr>],
                wave_pre = [], wave_post = []\<rparr>]\<rparr>"

definition no_output_objects :: Objects where
  "no_output_objects =
     \<lparr>steps = (\<lambda>r. plain_step ''Synth'' []),
      stackDeployments = (\<lambda>r. \<lparr>stackName = [], requiredAssets = [], dependsOnStacks = [],
                                 customCloudAssembly = None\<rparr>)\<rparr>"

definition same_id_objects :: Objects where
  "same_id_objects =
     \<lparr>steps = (\<lambda>r. if r = 0 then plain_step ''Synth'' [1] else plain_step ''Synth'' []),
      stackDeployments = (\<lambda>r. \<lparr>stackName = [], requiredAssets = [], dependsOnStacks = [],
                                 customCloudAssembly = None\<rparr>)\<rparr>"

definition wrong_memo_state :: GraphFromBlueprint where
  "wrong_memo_state = initial\<lparr>assetNodes := [''abc'' \<mapsto> 0]\<rparr>"

text \<open>
  Collaborators of the wrapper: a blueprint that records the names it is given, an engine
  that builds, and an engine whose \<^verbatim>\<open>buildDeployment\<close> throws.
\<close>

definition recording_addStage :: "string \<Rightarrow> string list \<Rightarrow> (string + unit) \<times> string list" where
  "recording_addStage name bp = (Inr (), bp @ [name])"

definition counting_engine :: "string list \<Rightarrow> nat \<Rightarrow> string option \<times> nat" where
  "counting_engine bp eng = (None, Suc eng)"

definition throwing_engine :: "string list \<Rightarrow> nat \<Rightarrow> string option \<times> nat" where
  "throwing_engine bp eng = (Some ''no primary output'', Suc eng)"

section \<open>Frame properties of step addition\<close>

text \<open>
  What a call of \<^verbatim>\<open>addAndRecurse\<close> leaves alone: the fields other than the store, the
  allocator and the Step memo; the memo entries it found; the names, annotations and
  children of the allocated nodes other than the groups it attaches to; and the
  dependencies of every node it did not create. The body of the function for a Step not
  yet visited is \<open>place\<close> followed by the loop over the dependency steps.
\<close>

lemma frame_refl: "frame X st st"
  by (simp add: frame_def same_fields_def memo_ext_def deps_same_def shape_same_def children_fresh_def)

lemma same_fields_trans: "same_fields a b \<Longrightarrow> same_fields b c \<Longrightarrow> same_fields a c"
  by (simp add: same_fields_def)

lemma memo_ext_trans:
  "next_ref a \<le> next_ref b \<Longrightarrow> next_ref b \<le> next_ref c \<Longrightarrow> memo_ext a b \<Longrightarrow> memo_ext b c
   \<Longrightarrow> memo_ext a c"
  unfolding memo_ext_def by (metis le_trans less_le_trans)

lemma deps_same_trans: "deps_same X a b \<Longrightarrow> deps_same X b c \<Longrightarrow> deps_same X a c"
  unfolding deps_same_def by simp

lemma shape_same_trans:
  assumes le: "next_ref a \<le> next_ref b" and ab: "shape_same a b" and bc: "shape_same b c"
  shows "shape_same a c"
  unfolding shape_same_def
proof (intro allI impI)
  fix n assume n: "n < next_ref a"
  then have nb: "n < next_ref b" using le by simp
  from ab n obtain cs where 1: "node_id (heap b n) = node_id (heap a n)"
    "data (heap b n) = data (heap a n)" "children (heap b n) = children (heap a n) @ cs"
    unfolding shape_same_def by blast
  from bc nb obtain ds where 2: "node_id (heap c n) = node_id (heap b n)"
    "data (heap c n) = data (heap b n)" "children (heap c n) = children (heap b n) @ ds"
    unfolding shape_same_def by blast
  have "children (heap c n) = children (heap a n) @ (cs @ ds)" using 1 2 by simp
  then show "node_id (heap c n) = node_id (heap a n) \<and> data (heap c n) = data (heap a n) \<and>
        (\<exists>cs. children (heap c n) = children (heap a n) @ cs)"
    using 1 2 by simp
qed

lemma children_fresh_trans:
  "next_ref a \<le> next_ref b \<Longrightarrow> next_ref b \<le> next_ref c \<Longrightarrow> children_fresh a b
   \<Longrightarrow> children_fresh b c \<Longrightarrow> children_fresh a c"
  unfolding children_fresh_def by (metis le_trans less_le_trans)

lemma frame_trans: "frame X a b \<Longrightarrow> frame X b c \<Longrightarrow> frame X a c"
proof -
  assume ab: "frame X a b" and bc: "frame X b c"
  have l1: "next_ref a \<le> next_ref b" and l2: "next_ref b \<le> next_ref c"
    using ab bc by (simp_all add: frame_def)
  have "same_fields a c" using ab bc same_fields_trans by (simp add: frame_def) blast
  moreover have "memo_ext a c" using memo_ext_trans[OF l1 l2] ab bc by (simp add: frame_def)
  moreover have "deps_same X a c" using deps_same_trans ab bc by (simp add: frame_def) blast
  moreover have "shape_same a c" using shape_same_trans[OF l1] ab bc by (simp add: frame_def)
  moreover have "children_fresh a c" using children_fresh_trans[OF l1 l2] ab bc by (simp add: frame_def)
  ultimately show ?thesis using l1 l2 by (simp add: frame_def)
qed

lemma frame_weaken: "frame X a b \<Longrightarrow> Y \<subseteq> X \<Longrightarrow> frame Y a b"
  unfolding frame_def deps_same_def by blast

lemma frame_GraphNode_of:
  "GraphNode_of name d st = (n, st1) \<Longrightarrow> n = next_ref st \<and> frame {..<next_ref st} st st1"
  by (auto simp: GraphNode_of_def frame_def same_fields_def memo_ext_def deps_same_def shape_same_def children_fresh_def split: if_splits)

lemma frame_dependOn: "frame (- {n}) st (dependOn n ds st)"
  by (auto simp: dependOn_def frame_def same_fields_def memo_ext_def deps_same_def shape_same_def children_fresh_def)

lemma addAndRecurse_Suc:
  "addAndRecurse (Suc k) W step parent st =
     (case added st step of
        Some previous \<Rightarrow> Inr (previous, st)
      | None \<Rightarrow>
          (case place W step parent st of
             Inl e \<Rightarrow> Inl e
           | Inr (node, parent', st4) \<Rightarrow>
               (case addAndRecurse_deps (addAndRecurse k W) node parent'
                       (dependencySteps (steps W step)) st4 of
                  Inl e \<Rightarrow> Inl e
                | Inr st5 \<Rightarrow> Inr (node, st5))))"
  by (simp add: place_def split: option.splits prod.splits sum.splits)

declare addAndRecurse.simps(2) [simp del]

lemma Graph_add_error: "Graph_add g ns st = Inl e \<Longrightarrow> \<exists>h name. e = DuplicateId h name"
  by (induction ns arbitrary: st) (auto split: option.splits)

lemma topLevelGraph_error: "topLevelGraph name st = Inl e \<Longrightarrow> \<exists>h nm. e = DuplicateId h nm"
  unfolding topLevelGraph_def
  by (auto split: option.splits prod.splits sum.splits dest: Graph_add_error simp del: Graph_add.simps)

lemma place_error: "place W step parent st = Inl e \<Longrightarrow> \<exists>h nm. e = DuplicateId h nm"
  unfolding place_def
  by (auto split: prod.splits sum.splits if_splits dest: Graph_add_error topLevelGraph_error
      simp del: Graph_add.simps)

lemma Graph_add_single:
  "Graph_add g [n] st =
     (case tryGetChild g (node_id (heap st n)) st of
        Some c \<Rightarrow> Inl (DuplicateId g (node_id (heap st n)))
      | None \<Rightarrow> Inr (attach g n st))"
  by (simp add: attach_def split: option.splits)

lemma find_append_eq:
  "find P (xs @ ys) = (case find P xs of None \<Rightarrow> find P ys | Some x \<Rightarrow> Some x)"
  by (induction xs) auto

lemma find_cong_set: "(\<And>x. x \<in> set xs \<Longrightarrow> P x = Q x) \<Longrightarrow> find P xs = find Q xs"
  by (induction xs) auto

lemma node_id_attach: "node_id (heap (attach g n st) c) = node_id (heap st c)"
  by (simp add: attach_def)

lemma children_attach:
  "children (heap (attach g n st) x) = (if x = g then children (heap st g) @ [n] else children (heap st x))"
  by (simp add: attach_def)

lemma tryGetChild_attach:
  "tryGetChild g name (attach g n st) =
     (case tryGetChild g name st of
        Some c \<Rightarrow> Some c
      | None \<Rightarrow> if node_id (heap st n) = name then Some n else None)"
  by (simp add: tryGetChild_def node_id_attach children_attach find_append_eq split: option.splits)

lemma frame_attach:
  "next_ref st0 \<le> n \<Longrightarrow> n < next_ref st \<Longrightarrow> frame X st0 st \<Longrightarrow> frame X st0 (attach g n st)"
  by (auto simp: attach_def frame_def same_fields_def memo_ext_def deps_same_def shape_same_def children_fresh_def
      split: if_splits)

lemma frame_topLevelGraph:
  "topLevelGraph name st = Inr (g, st') \<Longrightarrow> frame {..<next_ref st} st st'"
proof (cases "tryGetChild (graph st) name st")
  case None
  assume r: "topLevelGraph name st = Inr (g, st')"
  obtain n st1 where a: "GraphNode_of name None st = (n, st1)" by fastforce
  from frame_GraphNode_of[OF a] have n: "n = next_ref st" and f: "frame {..<next_ref st} st st1"
    by simp_all
  have nx: "next_ref st1 = Suc (next_ref st)" using a by (auto simp: GraphNode_of_def)
  from r None a have "st' = attach (graph st1) n st1"
    by (auto simp: topLevelGraph_def attach_def split: option.splits)
  then show ?thesis using frame_attach[OF _ _ f, of n "graph st1"] n nx by simp
next
  case (Some c)
  assume "topLevelGraph name st = Inr (g, st')"
  then show ?thesis using Some by (simp add: topLevelGraph_def frame_refl)
qed

lemma topLevelGraph_child:
  "topLevelGraph name st = Inr (g, st') \<Longrightarrow> tryGetChild (graph st') name st' = Some g"
proof (cases "tryGetChild (graph st) name st")
  case None
  assume r: "topLevelGraph name st = Inr (g, st')"
  obtain n st1 where a: "GraphNode_of name None st = (n, st1)" by fastforce
  have nm: "node_id (heap st1 n) = name" using a by (auto simp: GraphNode_of_def)
  from r None a have t: "tryGetChild (graph st1) name st1 = None" and s: "st' = attach (graph st1) n st1"
    and g: "g = n"
    by (auto simp: topLevelGraph_def attach_def nm split: option.splits)
  have "graph st' = graph st1" using s by (simp add: attach_def)
  then show ?thesis using s t nm g by (simp add: tryGetChild_attach)
next
  case (Some c)
  assume "topLevelGraph name st = Inr (g, st')"
  then show ?thesis using Some by (simp add: topLevelGraph_def)
qed

lemma tryGetChild_attach_Some:
  "tryGetChild g name st = Some c \<Longrightarrow> tryGetChild g name (attach g' n st) = Some c"
  by (auto simp: tryGetChild_def node_id_attach children_attach find_append_eq)

lemma dependencies_attach: "dependencies (heap (attach g n st) x) = dependencies (heap st x)"
  by (simp add: attach_def)

lemma data_attach: "data (heap (attach g n st) x) = data (heap st x)"
  by (simp add: attach_def)

lemma frame_register:
  "frame X st0 st \<Longrightarrow> added st0 s = None \<Longrightarrow> next_ref st0 \<le> n \<Longrightarrow> n < next_ref st
   \<Longrightarrow> frame X st0 (st\<lparr>added := (added st)(s \<mapsto> n)\<rparr>)"
  by (auto simp: frame_def same_fields_def memo_ext_def deps_same_def shape_same_def children_fresh_def)

lemma frame_next: "frame X a b \<Longrightarrow> next_ref a \<le> next_ref b"
  by (simp add: frame_def)

lemma frame_deps: "frame X a b \<Longrightarrow> n \<in> X \<Longrightarrow> dependencies (heap b n) = dependencies (heap a n)"
  by (simp add: frame_def deps_same_def)

lemma frame_data: "frame X a b \<Longrightarrow> n < next_ref a \<Longrightarrow> data (heap b n) = data (heap a n)"
  by (simp add: frame_def shape_same_def)

lemma frame_node_id: "frame X a b \<Longrightarrow> n < next_ref a \<Longrightarrow> node_id (heap b n) = node_id (heap a n)"
  by (simp add: frame_def shape_same_def)

lemma frame_children_prefix:
  "frame X a b \<Longrightarrow> n < next_ref a \<Longrightarrow> \<exists>cs. children (heap b n) = children (heap a n) @ cs"
  by (simp add: frame_def shape_same_def)

lemma frame_children_fresh:
  "frame X a b \<Longrightarrow> c \<in> set (children (heap b x))
   \<Longrightarrow> c \<in> set (children (heap a x)) \<or> (next_ref a \<le> c \<and> c < next_ref b)"
  by (simp add: frame_def children_fresh_def)

lemma frame_children: "frame X a b \<Longrightarrow> n < next_ref a \<Longrightarrow> c \<in> set (children (heap a n))
  \<Longrightarrow> c \<in> set (children (heap b n))"
  using frame_children_prefix[of X a b n] by auto

lemma frame_added: "frame X a b \<Longrightarrow> added a s = Some n \<Longrightarrow> added b s = Some n"
  by (simp add: frame_def memo_ext_def)


lemma frame_same_fields: "frame X a b \<Longrightarrow> same_fields a b"
  by (simp add: frame_def)

lemma added_topLevelGraph: "topLevelGraph name st = Inr (g, st') \<Longrightarrow> added st' = added st"
  by (auto simp: topLevelGraph_def GraphNode_of_def split: option.splits)

lemma place_Inr:
  assumes un: "added st step = None"
    and pl: "place W step parent st = Inr (node, parent', st4)"
  shows "node = next_ref st \<and> frame {..<next_ref st} st st4 \<and> node < next_ref st4 \<and>
         added st4 step = Some node \<and> dependencies (heap st4 node) = [] \<and>
         data (heap st4 node) = Some (StepAnn step None) \<and>
         node \<in> set (children (heap st4 parent')) \<and>
         (\<forall>x. node \<in> set (children (heap st4 x)) \<longrightarrow>
            x = parent' \<or> node \<in> set (children (heap st x))) \<and>
         added st4 = (added st)(step \<mapsto> node) \<and>
         (if isCodePipelineSource (steps W step)
          then tryGetChild (graph st4) ''Source'' st4 = Some parent'
          else parent' = parent)"
proof -
  obtain n st1 where a: "GraphNode_of (step_id (steps W step)) (Some (StepAnn step None)) st = (n, st1)"
    by fastforce
  from frame_GraphNode_of[OF a] have n: "n = next_ref st" and f1: "frame {..<next_ref st} st st1"
    by simp_all
  have nx1: "next_ref st1 = Suc (next_ref st)" and d1: "dependencies (heap st1 n) = []"
    and a1: "data (heap st1 n) = Some (StepAnn step None)"
    using a by (auto simp: GraphNode_of_def)
  let ?sel = "if isCodePipelineSource (steps W step) then topLevelGraph ''Source'' st1
         else Inr (parent, st1)"
  from pl a have pl1: "(case ?sel of
             Inl e \<Rightarrow> Inl e
           | Inr (parent', st2) \<Rightarrow>
               (case Graph_add parent' [n] st2 of
                  Inl e \<Rightarrow> Inl e
                | Inr st3 \<Rightarrow> Inr (n, parent', st3\<lparr>added := (added st3)(step \<mapsto> n)\<rparr>)))
       = Inr (node, parent', st4)"
    by (simp add: place_def)
  then obtain p2 st2 where b0: "?sel = Inr (p2, st2)"
    by (cases ?sel) auto
  with pl1 have pl2: "(case Graph_add p2 [n] st2 of
                  Inl e \<Rightarrow> Inl e
                | Inr st3 \<Rightarrow> Inr (n, p2, st3\<lparr>added := (added st3)(step \<mapsto> n)\<rparr>))
       = Inr (node, parent', st4)"
    by simp
  then obtain st3 where c0: "Graph_add p2 [n] st2 = Inr st3"
    by (cases "Graph_add p2 [n] st2") auto
  have nd: "node = n" and pp: "parent' = p2"
    and s40: "st4 = st3\<lparr>added := (added st3)(step \<mapsto> n)\<rparr>"
    using pl2 unfolding c0 by auto
  have s3: "st3 = attach p2 n st2"
    using c0 by (auto simp: attach_def split: option.splits)
  have b: "?sel = Inr (parent', st2)" using b0 pp by simp
  have s4: "st4 = (attach parent' n st2)\<lparr>added := (added (attach parent' n st2))(step \<mapsto> n)\<rparr>"
    using s40 s3 pp by simp
  have f12: "frame {..<next_ref st1} st1 st2"
    using b frame_topLevelGraph by (auto simp: frame_refl split: if_splits)
  have f2: "frame {..<next_ref st} st st2"
    using frame_trans[OF f1 frame_weaken[OF f12]] nx1 by auto
  have nx2: "n < next_ref st2" using frame_next[OF f12] nx1 n by simp
  have f3: "frame {..<next_ref st} st (attach parent' n st2)"
    using frame_attach[OF _ nx2 f2] n by simp
  have f4: "frame {..<next_ref st} st st4"
    unfolding s4 using frame_register[OF f3 un, of n] nx2 n by (simp add: attach_def)
  have d4: "dependencies (heap st4 n) = []"
    using frame_deps[OF f12, of n] d1 nx1 n by (simp add: s4 dependencies_attach)
  have a4: "data (heap st4 n) = Some (StepAnn step None)"
    using frame_data[OF f12, of n] a1 nx1 n by (simp add: s4 data_attach)
  have ch: "n \<in> set (children (heap st4 parent'))"
    by (simp add: s4 children_attach)
  have src: "isCodePipelineSource (steps W step) \<Longrightarrow> tryGetChild (graph st4) ''Source'' st4 = Some parent'"
  proof -
    assume "isCodePipelineSource (steps W step)"
    then have "tryGetChild (graph st2) ''Source'' st2 = Some parent'"
      using b topLevelGraph_child by simp
    then have "tryGetChild (graph st2) ''Source'' (attach parent' n st2) = Some parent'"
      by (rule tryGetChild_attach_Some)
    then show ?thesis by (simp add: s4 tryGetChild_def attach_def)
  qed
  have np: "\<not> isCodePipelineSource (steps W step) \<Longrightarrow> parent' = parent"
    using b by simp
  have c1: "children (heap st1 x) = (if x = n then [] else children (heap st x))" for x
    using a by (auto simp: GraphNode_of_def)
  have chx: "x = parent' \<or> n \<in> set (children (heap st x))"
    if "n \<in> set (children (heap st4 x))" for x
  proof (cases "x = parent'")
    case True
    then show ?thesis by simp
  next
    case False
    then have "n \<in> set (children (heap st2 x))" using that by (simp add: s4 children_attach)
    then have "n \<in> set (children (heap st1 x))"
      using frame_children_fresh[OF f12, of n x] nx1 n by auto
    then show ?thesis by (simp add: c1 split: if_splits)
  qed
  have "node = next_ref st \<and> frame {..<next_ref st} st st4 \<and> node < next_ref st4 \<and>
         added st4 step = Some node \<and> dependencies (heap st4 node) = [] \<and>
         data (heap st4 node) = Some (StepAnn step None) \<and>
         node \<in> set (children (heap st4 parent')) \<and>
         (if isCodePipelineSource (steps W step)
          then tryGetChild (graph st4) ''Source'' st4 = Some parent'
          else parent' = parent)"
    using nd n f4 nx2 d4 a4 ch src np by (simp add: s4 attach_def)
  moreover have "added st1 = added st" using a by (auto simp: GraphNode_of_def)
  then have "added st4 = (added st)(step \<mapsto> node)"
    using b added_topLevelGraph nd by (auto simp: s4 attach_def split: if_splits)
  ultimately show ?thesis using chx nd by blast
qed

lemma next_ref_dependOn [simp]: "next_ref (dependOn n ds st) = next_ref st"
  by (simp add: dependOn_def)

lemma added_dependOn [simp]: "added (dependOn n ds st) = added st"
  by (simp add: dependOn_def)

lemma deps_loop_step:
  "addAndRecurse_deps recurse node parent (d # ds) st = Inr st' \<Longrightarrow>
   \<exists>m st1. recurse d parent st = Inr (m, st1) \<and>
     addAndRecurse_deps recurse node parent ds (dependOn node [m] st1) = Inr st'"
  by (auto split: sum.splits)

lemma deps_loop_frame:
  assumes ok: "rec_ok recurse"
  shows "addAndRecurse_deps recurse node parent ds st = Inr st'
    \<Longrightarrow> frame ({..<next_ref st} - {node}) st st'"
proof (induction ds arbitrary: st)
  case Nil
  then show ?case by (simp add: frame_refl)
next
  case (Cons d ds)
  from deps_loop_step[OF Cons.prems] obtain m st1 where
    r: "recurse d parent st = Inr (m, st1)"
    and l: "addAndRecurse_deps recurse node parent ds (dependOn node [m] st1) = Inr st'"
    by blast
  have f1: "frame {..<next_ref st} st st1" using ok r by (simp add: rec_ok_def)
  have le: "next_ref st \<le> next_ref st1" using f1 by (rule frame_next)
  have f2: "frame (- {node}) st1 (dependOn node [m] st1)" by (rule frame_dependOn)
  have f3: "frame ({..<next_ref st1} - {node}) (dependOn node [m] st1) st'"
    using Cons.IH[OF l] by simp
  let ?X = "{..<next_ref st} - {node}"
  have "frame ?X st st1" using f1 by (rule frame_weaken) auto
  moreover have "frame ?X st1 (dependOn node [m] st1)" using f2 by (rule frame_weaken) auto
  moreover have "frame ?X (dependOn node [m] st1) st'" using f3 apply (rule frame_weaken) using le by auto
  ultimately show ?case using frame_trans by blast
qed

lemma addAndRecurse_frame:
  "addAndRecurse k W d p s = Inr (r, s') \<Longrightarrow> frame {..<next_ref s} s s' \<and> added s' d = Some r"
proof (induction k arbitrary: d p s r s')
  case 0
  then show ?case by simp
next
  case (Suc k)
  have ok: "rec_ok (addAndRecurse k W)" unfolding rec_ok_def using Suc.IH by blast
  show ?case
  proof (cases "added s d")
    case (Some previous)
    then show ?thesis using Suc.prems by (simp add: addAndRecurse_Suc frame_refl)
  next
    case None
    from Suc.prems None obtain node parent' st4 where
      pl: "place W d p s = Inr (node, parent', st4)"
      and lp: "addAndRecurse_deps (addAndRecurse k W) node parent' (dependencySteps (steps W d)) st4 = Inr s'"
      and r: "r = node"
      unfolding addAndRecurse_Suc by (auto split: sum.splits)
    note P = place_Inr[OF None pl]
    have f4: "frame {..<next_ref s} s st4" using P by simp
    have fl: "frame ({..<next_ref st4} - {node}) st4 s'" using deps_loop_frame[OF ok lp] .
    have "frame {..<next_ref s} st4 s'"
      using fl apply (rule frame_weaken) using P frame_next[OF f4] by auto
    then have f: "frame {..<next_ref s} s s'" using frame_trans[OF f4] by blast
    have "added s' d = Some node" using frame_added[OF fl] P by simp
    then show ?thesis using f r by simp
  qed
qed

section \<open>Termination of step addition\<close>

text \<open>
  Each call that creates a node lowers the number of Steps not yet in the memo, and the
  memo entry is made before the recursion: a depth bound above that number is never
  reached, and any larger bound gives the same result.
\<close>

lemma unvisited_mono:
  "(\<And>s n. added a s = Some n \<Longrightarrow> added b s = Some n) \<Longrightarrow> unvisited xs b \<le> unvisited xs a"
proof (induction xs)
  case Nil
  then show ?case by (simp add: unvisited_def)
next
  case (Cons x xs)
  then have "unvisited xs b \<le> unvisited xs a" by blast
  moreover have "added b x = None \<Longrightarrow> added a x = None"
    using Cons.prems by (cases "added a x") auto
  ultimately show ?case by (auto simp: unvisited_def)
qed

lemma unvisited_less:
  "(\<And>s n. added a s = Some n \<Longrightarrow> added b s = Some n) \<Longrightarrow> x \<in> set xs \<Longrightarrow> added a x = None
   \<Longrightarrow> added b x \<noteq> None \<Longrightarrow> unvisited xs b < unvisited xs a"
proof (induction xs)
  case Nil
  then show ?case by simp
next
  case (Cons y ys)
  have m: "unvisited ys b \<le> unvisited ys a" using Cons.prems(1) unvisited_mono by blast
  have imp: "added b y = None \<Longrightarrow> added a y = None"
    using Cons.prems(1) by (cases "added a y") auto
  show ?case
  proof (cases "x = y")
    case True
    then show ?thesis using m Cons.prems by (auto simp: unvisited_def)
  next
    case False
    then have "unvisited ys b < unvisited ys a" using Cons by auto
    then show ?thesis using imp by (auto simp: unvisited_def)
  qed
qed

lemma frame_unvisited: "frame X a b \<Longrightarrow> unvisited xs b \<le> unvisited xs a"
  using unvisited_mono frame_added by blast

lemma deps_loop_returns:
  assumes ok: "rec_ok recurse"
    and fuel: "\<And>d p s. d \<in> set ds \<Longrightarrow> unvisited xs s \<le> M \<Longrightarrow> recurse d p s \<noteq> Inl OutOfFuel"
  shows "unvisited xs st \<le> M \<Longrightarrow> addAndRecurse_deps recurse node parent ds st \<noteq> Inl OutOfFuel"
  using fuel
proof (induction ds arbitrary: st)
  case Nil
  then show ?case by simp
next
  case (Cons d ds)
  show ?case
  proof (cases "recurse d parent st")
    case (Inl e)
    then have "e \<noteq> OutOfFuel" using Cons.prems(1) Cons.prems(2)[of d st parent] by auto
    then show ?thesis using Inl by simp
  next
    case (Inr a)
    obtain m st1 where a: "a = (m, st1)" by (cases a)
    have "frame {..<next_ref st} st st1" using ok Inr a by (simp add: rec_ok_def)
    then have "unvisited xs st1 \<le> M" using frame_unvisited Cons.prems(1) le_trans by blast
    then have "unvisited xs (dependOn node [m] st1) \<le> M" by (simp add: unvisited_def)
    then have "addAndRecurse_deps recurse node parent ds (dependOn node [m] st1) \<noteq> Inl OutOfFuel"
      using Cons.IH Cons.prems(2) by simp
    then show ?thesis using Inr a by simp
  qed
qed

lemma addAndRecurse_returns:
  "closed W xs \<Longrightarrow> step \<in> set xs \<Longrightarrow> unvisited xs st < fuel
   \<Longrightarrow> addAndRecurse fuel W step parent st \<noteq> Inl OutOfFuel"
proof (induction fuel arbitrary: step parent st)
  case 0
  then show ?case by simp
next
  case (Suc k)
  have ok: "rec_ok (addAndRecurse k W)" unfolding rec_ok_def using addAndRecurse_frame by blast
  show ?case
  proof (cases "added st step")
    case (Some previous)
    then show ?thesis by (simp add: addAndRecurse_Suc)
  next
    case None
    show ?thesis
    proof (cases "place W step parent st")
      case (Inl e)
      then have "e \<noteq> OutOfFuel" using place_error by blast
      then show ?thesis using None Inl by (simp add: addAndRecurse_Suc)
    next
      case (Inr a)
      obtain node parent' st4 where a: "a = (node, parent', st4)" by (cases a)
      note P = place_Inr[OF None Inr[unfolded a]]
      have "unvisited xs st4 < unvisited xs st"
        apply (rule unvisited_less[of st st4 step])
        using P frame_added None Suc.prems by auto
      then have le: "unvisited xs st4 \<le> k - 1" and k: "0 < k" using Suc.prems(3) by auto
      have sub: "set (dependencySteps (steps W step)) \<subseteq> set xs"
        using Suc.prems by (auto simp: closed_def)
      have "addAndRecurse_deps (addAndRecurse k W) node parent' (dependencySteps (steps W step)) st4
              \<noteq> Inl OutOfFuel"
        apply (rule deps_loop_returns[OF ok _ le])
        apply (rule Suc.IH[OF Suc.prems(1)])
        using sub k by auto
      then show ?thesis using None Inr a by (auto simp: addAndRecurse_Suc split: sum.splits)
    qed
  qed
qed

lemma deps_loop_more_fuel:
  assumes "\<And>d p s r. recurse d p s = r \<Longrightarrow> r \<noteq> Inl OutOfFuel \<Longrightarrow> recurse' d p s = r"
  shows "addAndRecurse_deps recurse node parent ds st = r \<Longrightarrow> r \<noteq> Inl OutOfFuel
    \<Longrightarrow> addAndRecurse_deps recurse' node parent ds st = r"
proof (induction ds arbitrary: st)
  case Nil
  then show ?case by simp
next
  case (Cons d ds)
  show ?case
  proof (cases "recurse d parent st")
    case (Inl e)
    then have "r = Inl e" using Cons.prems by simp
    then have "recurse' d parent st = Inl e" using assms[OF Inl] Cons.prems by simp
    then show ?thesis using \<open>r = Inl e\<close> by simp
  next
    case (Inr a)
    then have "recurse' d parent st = Inr a" using assms by blast
    then show ?thesis using Inr Cons by (auto split: prod.splits)
  qed
qed

lemma addAndRecurse_more_fuel:
  "addAndRecurse k W d p s = r \<Longrightarrow> r \<noteq> Inl OutOfFuel \<Longrightarrow> addAndRecurse (Suc k) W d p s = r"
proof (induction k arbitrary: d p s r)
  case 0
  then show ?case by simp
next
  case (Suc k)
  show ?case
  proof (cases "added s d")
    case (Some previous)
    then show ?thesis using Suc.prems by (simp add: addAndRecurse_Suc)
  next
    case None
    show ?thesis
    proof (cases "place W d p s")
      case (Inl e)
      then show ?thesis using Suc.prems None by (simp add: addAndRecurse_Suc)
    next
      case (Inr a)
      obtain node parent' st4 where a: "a = (node, parent', st4)" by (cases a)
      let ?l = "\<lambda>k. addAndRecurse_deps (addAndRecurse k W) node parent' (dependencySteps (steps W d)) st4"
      have "?l k \<noteq> Inl OutOfFuel"
        using Suc.prems None Inr a by (auto simp: addAndRecurse_Suc split: sum.splits)
      then have "?l (Suc k) = ?l k"
        using deps_loop_more_fuel[of "addAndRecurse k W" "addAndRecurse (Suc k) W", OF Suc.IH] by blast
      then show ?thesis using Suc.prems(1) None Inr a
        by (simp add: addAndRecurse_Suc[of "Suc k"] addAndRecurse_Suc[of k])
    qed
  qed
qed

lemma addAndRecurse_fuel_le:
  "k \<le> k' \<Longrightarrow> addAndRecurse k W d p s \<noteq> Inl OutOfFuel
   \<Longrightarrow> addAndRecurse k' W d p s = addAndRecurse k W d p s"
proof (induction k' arbitrary: k)
  case 0
  then show ?case by simp
next
  case (Suc k')
  show ?case
  proof (cases "k = Suc k'")
    case True
    then show ?thesis by simp
  next
    case False
    then have "k \<le> k'" using Suc.prems by simp
    then have "addAndRecurse k' W d p s = addAndRecurse k W d p s" using Suc by blast
    then show ?thesis using addAndRecurse_more_fuel[of k' W d p s] Suc.prems(2) by simp
  qed
qed

section \<open>Asset publishing\<close>

text \<open>
  C1 (asset dedup) does not hold of the code. \<^verbatim>\<open>publishAsset\<close> finds the memoized node
  of an \<open>assetId\<close> and appends the new selector to it, but does not return there: it
  goes on to advance the counter, make a second publish node, overwrite the memo entry
  and return the new node. Compiling the blueprint above, whose two stacks require asset
  \<open>abc\<close> at two selectors, leaves two publish nodes in the "Assets" group, the file
  counter at 2, the first node with both selectors, the second with one, and the memo
  on the second node.
\<close>

theorem publishAsset_same_assetId_makes_second_node:
  "(case construct 2 two_stacks_objects two_stacks_blueprint \<lparr>selfMutation = None\<rparr> of
      Inl e \<Rightarrow> False
    | Inr st \<Rightarrow>
        (case tryGetChild (graph st) ''Assets'' st of
           None \<Rightarrow> False
         | Some assets \<Rightarrow>
             map (\<lambda>n. node_id (heap st n)) (children (heap st assets))
               = [''FileAsset1'', ''FileAsset2'']
             \<and> map (\<lambda>n. case data (heap st n) of
                           Some (PublishAssets xs) \<Rightarrow> map assetSelector xs
                         | _ \<Rightarrow> [])
                   (children (heap st assets))
               = [[''region1'', ''region2''], [''region2'']]
             \<and> map_option (\<lambda>n. node_id (heap st n)) (assetNodes st ''abc'') = Some ''FileAsset2''
             \<and> fileAssetCtr st = 2))"
  by (simp add: two_stacks_objects_def two_stacks_blueprint_def synth_output_def
      construct_def construct_prepare_def construct_waves_def addBuildStep_def topLevelGraph_def
      tryGetChild_def GraphNode_of_def Graph_of_def dependOn_def definedNodes_def
      List.map_filter_def initial_def markBuildStep_def cloudAssemblyOf_def addWave_def
      addStage_def addPrePost_def publishAsset_def sequentialWaves_def string_of_nat.simps
      addAndRecurse.simps eval_nat_numeral)

section \<open>Idempotent step addition\<close>

text \<open>
  Creating the node of a Step keeps the memo in step with the annotations, adding edges
  does not touch either, and every call that returns is made of such steps.
\<close>

lemma topLevelGraph_new_data:
  "topLevelGraph name st = Inr (g, st') \<Longrightarrow> next_ref st \<le> n \<Longrightarrow> n < next_ref st'
     \<Longrightarrow> data (heap st' n) = None"
  by (auto simp: topLevelGraph_def GraphNode_of_def split: option.splits if_splits)

lemma place_other_data:
  assumes pl: "place W step parent st = Inr (node, parent', st4)"
    and ge: "next_ref st \<le> n" and lt: "n < next_ref st4" and ne: "n \<noteq> node"
  shows "data (heap st4 n) = None"
proof -
  obtain n0 st1 where a: "GraphNode_of (step_id (steps W step)) (Some (StepAnn step None)) st = (n0, st1)"
    by fastforce
  have n0: "n0 = next_ref st" and nx1: "next_ref st1 = Suc (next_ref st)"
    using a by (auto simp: GraphNode_of_def)
  let ?sel = "if isCodePipelineSource (steps W step) then topLevelGraph ''Source'' st1
         else Inr (parent, st1)"
  from pl a obtain p2 st2 where b0: "?sel = Inr (p2, st2)"
    by (cases ?sel) (auto simp: place_def)
  from pl a b0 obtain st3 where c0: "Graph_add p2 [n0] st2 = Inr st3"
    by (cases "Graph_add p2 [n0] st2") (auto simp: place_def simp del: Graph_add.simps)
  have c1: "st3 = attach p2 n0 st2"
    using c0 unfolding Graph_add_single by (auto split: option.splits)
  have e4: "node = n0" "st4 = st3\<lparr>added := (added st3)(step \<mapsto> n0)\<rparr>"
    using pl a b0 c0 by (auto simp: place_def simp del: Graph_add.simps)
  have d4: "data (heap st4 n) = data (heap st2 n)" and x4: "next_ref st4 = next_ref st2"
    unfolding e4 c1 by (simp_all add: attach_def)
  have n1: "next_ref st1 \<le> n" using ge ne e4 n0 nx1 by simp
  show ?thesis
  proof (cases "isCodePipelineSource (steps W step)")
    case True
    then have "topLevelGraph ''Source'' st1 = Inr (p2, st2)" using b0 by simp
    from topLevelGraph_new_data[OF this n1] show ?thesis using lt x4 d4 by simp
  next
    case False
    then have "st2 = st1" using b0 by simp
    then show ?thesis using lt x4 n1 by simp
  qed
qed

lemma step_nodes_place:
  assumes un: "added st step = None"
    and pl: "place W step parent st = Inr (node, parent', st4)"
    and inv: "step_nodes st"
  shows "step_nodes st4"
proof -
  note P = place_Inr[OF un pl]
  have nd: "node = next_ref st" using P by (elim conjE)
  have f: "frame {..<next_ref st} st st4" using P by (elim conjE)
  have a4: "added st4 = (added st)(step \<mapsto> node)" using P by (elim conjE)
  have lt: "node < next_ref st4" using P by (elim conjE)
  have d4: "data (heap st4 node) = Some (StepAnn step None)" using P by (elim conjE)
  have 1: "added st4 s = Some n"
    if "n < next_ref st4" "data (heap st4 n) = Some (StepAnn s b)" for n s b
  proof (cases "n < next_ref st")
    case True
    then have "data (heap st n) = Some (StepAnn s b)" using frame_data[OF f True] that(2) by simp
    then have "added st s = Some n" using inv True unfolding step_nodes_def by blast
    then show ?thesis using frame_added[OF f] by blast
  next
    case False
    have "n = node"
    proof (rule ccontr)
      assume "n \<noteq> node"
      then have "data (heap st4 n) = None" using place_other_data[OF pl _ that(1)] False by simp
      then show False using that(2) by simp
    qed
    then show ?thesis using that(2) d4 a4 by simp
  qed
  have 2: "n < next_ref st4 \<and> (\<exists>b. data (heap st4 n) = Some (StepAnn s b))"
    if "added st4 s = Some n" for s n
  proof (cases "s = step")
    case True
    then have "n = node" using that a4 by simp
    then show ?thesis using lt d4 True by simp
  next
    case False
    then have "added st s = Some n" using that a4 by simp
    then have o: "n < next_ref st" "\<exists>b. data (heap st n) = Some (StepAnn s b)"
      using inv unfolding step_nodes_def by blast+
    then show ?thesis using frame_data[OF f o(1)] frame_next[OF f] by simp
  qed
  show ?thesis unfolding step_nodes_def
  proof (intro conjI allI impI)
    fix n s b assume "n < next_ref st4 \<and> data (heap st4 n) = Some (StepAnn s b)"
    then show "added st4 s = Some n" using 1 by blast
  next
    fix s n assume "added st4 s = Some n"
    then show "n < next_ref st4" using 2 by blast
  next
    fix s n assume "added st4 s = Some n"
    then show "\<exists>b. data (heap st4 n) = Some (StepAnn s b)" using 2 by blast
  qed
qed

lemma step_nodes_dependOn: "step_nodes st \<Longrightarrow> step_nodes (dependOn n ds st)"
proof -
  have e: "data (heap (dependOn n ds st) x) = data (heap st x)"
    "next_ref (dependOn n ds st) = next_ref st" "added (dependOn n ds st) = added st" for x
    by (simp_all add: dependOn_def)
  show "step_nodes st \<Longrightarrow> step_nodes (dependOn n ds st)"
    unfolding step_nodes_def e .
qed

lemma step_nodes_initial: "step_nodes initial"
  by (simp add: step_nodes_def initial_def)

lemma reaches_trans: "reaches W b c \<Longrightarrow> reaches W a b \<Longrightarrow> reaches W a c"
proof (induction rule: reaches.induct)
  case (reaches_refl st)
  then show ?case .
next
  case (reaches_place st st1 other q n q' st2)
  show ?case
    using reaches.reaches_place[OF reaches_place.IH[OF reaches_place.prems] reaches_place.hyps(2,3)] .
next
  case (reaches_dependOn st st1 n ds)
  show ?case using reaches.reaches_dependOn[OF reaches_dependOn.IH[OF reaches_dependOn.prems]] .
qed

lemma reaches_frame: "reaches W st st' \<Longrightarrow> frame {} st st'"
proof (induction rule: reaches.induct)
  case (reaches_refl st)
  show ?case by (rule frame_refl)
next
  case (reaches_place st st1 other q n q' st2)
  have "frame {..<next_ref st1} st1 st2"
    using place_Inr[OF reaches_place.hyps(2,3)] by (elim conjE)
  then have "frame {} st1 st2" by (rule frame_weaken) simp
  then show ?case by (rule frame_trans[OF reaches_place.IH])
next
  case (reaches_dependOn st st1 n ds)
  have "frame {} st1 (dependOn n ds st1)" by (rule frame_weaken[OF frame_dependOn]) simp
  then show ?case by (rule frame_trans[OF reaches_dependOn.IH])
qed

lemma reaches_step_nodes: "reaches W st st' \<Longrightarrow> step_nodes st \<Longrightarrow> step_nodes st'"
proof (induction rule: reaches.induct)
  case (reaches_refl st)
  then show ?case .
next
  case (reaches_place st st1 other q n q' st2)
  show ?case
    using step_nodes_place[OF reaches_place.hyps(2,3) reaches_place.IH[OF reaches_place.prems]] .
next
  case (reaches_dependOn st st1 n ds)
  show ?case using step_nodes_dependOn[OF reaches_dependOn.IH[OF reaches_dependOn.prems]] .
qed

lemma deps_loop_reaches:
  assumes ok: "\<And>d p s r s'. recurse d p s = Inr (r, s') \<Longrightarrow> reaches W s s'"
  shows "addAndRecurse_deps recurse node parent ds st = Inr st' \<Longrightarrow> reaches W st st'"
proof (induction ds arbitrary: st)
  case Nil
  then show ?case by (simp add: reaches_refl)
next
  case (Cons d ds)
  from deps_loop_step[OF Cons.prems] obtain m st1 where
    r: "recurse d parent st = Inr (m, st1)"
    and l: "addAndRecurse_deps recurse node parent ds (dependOn node [m] st1) = Inr st'"
    by blast
  have "reaches W st (dependOn node [m] st1)" using ok[OF r] by (rule reaches_dependOn)
  then show ?case by (rule reaches_trans[OF Cons.IH[OF l]])
qed

lemma addAndRecurse_reaches:
  "addAndRecurse k W d p s = Inr (r, s') \<Longrightarrow> reaches W s s'"
proof (induction k arbitrary: d p s r s')
  case 0
  then show ?case by simp
next
  case (Suc k)
  show ?case
  proof (cases "added s d")
    case (Some previous)
    then show ?thesis using Suc.prems by (simp add: addAndRecurse_Suc reaches_refl)
  next
    case None
    from Suc.prems None obtain node parent' st4 where
      pl: "place W d p s = Inr (node, parent', st4)"
      and l: "addAndRecurse_deps (addAndRecurse k W) node parent' (dependencySteps (steps W d)) st4
                = Inr s'"
      by (auto simp: addAndRecurse_Suc split: sum.splits)
    have "reaches W s st4" using reaches_place[OF reaches_refl None pl] .
    moreover have "reaches W st4 s'" using deps_loop_reaches[OF Suc.IH l] .
    ultimately show ?thesis by (rule reaches_trans[rotated])
  qed
qed

text \<open>
  C2: step addition is idempotent. A call of \<^verbatim>\<open>addAndRecurse\<close> that returns, returns the
  memo's node for the Step. When the Step had not been visited, that node is the one this
  call allocated (it was no node of the state before), it carries the Step's annotation,
  and for a step that is not a source step it is a child of the requested parent. When
  the Step had been visited, the call returns the memoized node and the state as it was.
  In every state the recursion goes through afterwards (nodes of other Steps made,
  edges added, further calls returned), the memo still has that node for the Step; a
  call for the Step, with any parent and any non-zero depth bound, returns that node and
  the state unchanged, so it creates nothing; the node is a child of exactly the nodes
  it was a child of; and, when every Step node was its Step's memo node before the first
  call, this is still so: the Step has the one node. The witness is the diamond A, B, C,
  D: D is first reached through B, and reached again through C in a state inside the
  recursion for A, where the call returns D's node 3 (the run for A ends two edges after
  that state); the whole run makes four nodes, and B and C both depend on node 3.
\<close>

theorem addAndRecurse_idempotent:
  assumes r: "addAndRecurse k W step parent st = Inr (node, st1)"
  shows "added st1 step = Some node \<and>
     (case added st step of
        None \<Rightarrow>
          node = next_ref st \<and> node < next_ref st1 \<and>
          data (heap st1 node) = Some (StepAnn step None) \<and>
          (\<not> isCodePipelineSource (steps W step) \<and> parent < next_ref st
             \<longrightarrow> node \<in> set (children (heap st1 parent)))
      | Some previous \<Rightarrow> node = previous \<and> st1 = st) \<and>
     (\<forall>st2. reaches W st1 st2 \<longrightarrow>
        added st2 step = Some node \<and>
        (\<forall>k' parent'. addAndRecurse (Suc k') W step parent' st2 = Inr (node, st2)) \<and>
        (node < next_ref st1 \<longrightarrow>
           (\<forall>x. node \<in> set (children (heap st2 x)) \<longrightarrow> node \<in> set (children (heap st1 x))) \<and>
           (\<forall>x<next_ref st1. node \<in> set (children (heap st1 x))
               \<longrightarrow> node \<in> set (children (heap st2 x)))) \<and>
        (step_nodes st \<longrightarrow> step_nodes st2)) \<and>
     (\<forall>k2 other q m st2. addAndRecurse k2 W other q st1 = Inr (m, st2) \<longrightarrow> reaches W st1 st2) \<and>
     (step_nodes st \<longrightarrow>
        step_nodes st1 \<and> node < next_ref st1 \<and>
        (\<exists>b. data (heap st1 node) = Some (StepAnn step b)))"
proof -
  have m: "added st1 step = Some node" using addAndRecurse_frame[OF r] by (elim conjE)
  have k: "k \<noteq> 0" using r by (cases k) simp_all
  then obtain j where kj: "k = Suc j" by (cases k) simp_all
  have first: "(case added st step of
        None \<Rightarrow>
          node = next_ref st \<and> node < next_ref st1 \<and>
          data (heap st1 node) = Some (StepAnn step None) \<and>
          (\<not> isCodePipelineSource (steps W step) \<and> parent < next_ref st
             \<longrightarrow> node \<in> set (children (heap st1 parent)))
      | Some previous \<Rightarrow> node = previous \<and> st1 = st)"
  proof (cases "added st step")
    case (Some previous)
    then show ?thesis using r unfolding kj by (simp add: addAndRecurse_Suc)
  next
    case None
    from r None obtain parent' st4 where
      pl: "place W step parent st = Inr (node, parent', st4)"
      and l: "addAndRecurse_deps (addAndRecurse j W) node parent' (dependencySteps (steps W step)) st4
                = Inr st1"
      unfolding kj by (auto simp: addAndRecurse_Suc split: sum.splits)
    note P = place_Inr[OF None pl]
    have nd: "node = next_ref st" using P by (elim conjE)
    have f: "frame {..<next_ref st} st st4" using P by (elim conjE)
    have lt: "node < next_ref st4" using P by (elim conjE)
    have d4: "data (heap st4 node) = Some (StepAnn step None)" using P by (elim conjE)
    have c4: "node \<in> set (children (heap st4 parent'))" using P by (elim conjE)
    have pp: "if isCodePipelineSource (steps W step)
          then tryGetChild (graph st4) ''Source'' st4 = Some parent'
          else parent' = parent" using P by (elim conjE)
    have ok: "rec_ok (addAndRecurse j W)" unfolding rec_ok_def using addAndRecurse_frame by blast
    have f2: "frame ({..<next_ref st4} - {node}) st4 st1" using deps_loop_frame[OF ok l] .
    have a: "node < next_ref st1" using lt frame_next[OF f2] by simp
    have b: "data (heap st1 node) = Some (StepAnn step None)"
      using frame_data[OF f2 lt] d4 by simp
    have c: "node \<in> set (children (heap st1 parent))"
      if "\<not> isCodePipelineSource (steps W step)" "parent < next_ref st"
    proof -
      have e: "parent' = parent" using pp that(1) by simp
      have "parent < next_ref st4" using that(2) frame_next[OF f] by simp
      then show ?thesis using frame_children[OF f2 _ c4[unfolded e]] by simp
    qed
    show ?thesis using None nd a b c by simp
  qed
  have later: "added st2 step = Some node \<and>
        (\<forall>k' parent'. addAndRecurse (Suc k') W step parent' st2 = Inr (node, st2)) \<and>
        (node < next_ref st1 \<longrightarrow>
           (\<forall>x. node \<in> set (children (heap st2 x)) \<longrightarrow> node \<in> set (children (heap st1 x))) \<and>
           (\<forall>x<next_ref st1. node \<in> set (children (heap st1 x))
               \<longrightarrow> node \<in> set (children (heap st2 x)))) \<and>
        (step_nodes st \<longrightarrow> step_nodes st2)"
    if re: "reaches W st1 st2" for st2
  proof -
    have f: "frame {} st1 st2" using reaches_frame[OF re] .
    have m2: "added st2 step = Some node" using frame_added[OF f m] .
    have rep: "addAndRecurse (Suc k') W step parent' st2 = Inr (node, st2)" for k' parent'
      using m2 by (simp add: addAndRecurse_Suc)
    have c1: "node \<in> set (children (heap st1 x))"
      if "node < next_ref st1" "node \<in> set (children (heap st2 x))" for x
      using frame_children_fresh[OF f that(2)] that(1) by auto
    have c2: "node \<in> set (children (heap st2 x))"
      if "x < next_ref st1" "node \<in> set (children (heap st1 x))" for x
      using frame_children[OF f that] .
    have s: "step_nodes st2" if "step_nodes st"
      using reaches_step_nodes[OF reaches_trans[OF re addAndRecurse_reaches[OF r]] that] .
    show ?thesis using m2 rep c1 c2 s by blast
  qed
  have calls: "reaches W st1 st2" if "addAndRecurse k2 W other q st1 = Inr (m, st2)"
    for k2 other q m st2
    using addAndRecurse_reaches[OF that] .
  have inv: "step_nodes st1 \<and> node < next_ref st1 \<and>
        (\<exists>b. data (heap st1 node) = Some (StepAnn step b))" if i: "step_nodes st"
  proof -
    have s1: "step_nodes st1" using reaches_step_nodes[OF addAndRecurse_reaches[OF r] i] .
    then show ?thesis using m unfolding step_nodes_def by blast
  qed
  show ?thesis
  proof (intro conjI allI impI)
    show "added st1 step = Some node" by (rule m)
  next
    show "(case added st step of
        None \<Rightarrow>
          node = next_ref st \<and> node < next_ref st1 \<and>
          data (heap st1 node) = Some (StepAnn step None) \<and>
          (\<not> isCodePipelineSource (steps W step) \<and> parent < next_ref st
             \<longrightarrow> node \<in> set (children (heap st1 parent)))
      | Some previous \<Rightarrow> node = previous \<and> st1 = st)" by (rule first)
  next
    fix st2 assume "reaches W st1 st2"
    from later[OF this] show "added st2 step = Some node" by (elim conjE)
  next
    fix st2 k' parent' assume "reaches W st1 st2"
    from later[OF this] show "addAndRecurse (Suc k') W step parent' st2 = Inr (node, st2)" by blast
  next
    fix st2 x assume "reaches W st1 st2" "node < next_ref st1" "node \<in> set (children (heap st2 x))"
    then show "node \<in> set (children (heap st1 x))" using later by blast
  next
    fix st2 x assume "reaches W st1 st2" "node < next_ref st1" "x < next_ref st1"
      "node \<in> set (children (heap st1 x))"
    then show "node \<in> set (children (heap st2 x))" using later by blast
  next
    fix st2 assume "reaches W st1 st2" "step_nodes st"
    then show "step_nodes st2" using later by blast
  next
    fix k2 other q m st2 assume "addAndRecurse k2 W other q st1 = Inr (m, st2)"
    then show "reaches W st1 st2" by (rule calls)
  next
    assume "step_nodes st"
    from inv[OF this] show "step_nodes st1" by (elim conjE)
  next
    assume "step_nodes st"
    from inv[OF this] show "node < next_ref st1" by (elim conjE)
  next
    assume "step_nodes st"
    from inv[OF this] show "\<exists>b. data (heap st1 node) = Some (StepAnn step b)" by (elim conjE)
  qed
qed

lemmas diamond_eval = cyclic_objects_def plain_step_def initial_def addAndRecurse.simps
  GraphNode_of_def topLevelGraph_def tryGetChild_def dependOn_def place_def
  diamond_state_def diamond_later_def

theorem addAndRecurse_idempotent_witness:
  "added diamond_state 3 = None \<and> next_ref diamond_state = 3 \<and>
   addAndRecurse 2 cyclic_objects 3 0 diamond_state
     = Inr (3, snd (projr (addAndRecurse 2 cyclic_objects 3 0 diamond_state))) \<and>
   reaches cyclic_objects (snd (projr (addAndRecurse 2 cyclic_objects 3 0 diamond_state)))
     (diamond_later (snd (projr (addAndRecurse 2 cyclic_objects 3 0 diamond_state)))) \<and>
   added (diamond_later (snd (projr (addAndRecurse 2 cyclic_objects 3 0 diamond_state)))) 2 = Some 4 \<and>
   addAndRecurse (Suc 0) cyclic_objects 3 0
       (diamond_later (snd (projr (addAndRecurse 2 cyclic_objects 3 0 diamond_state))))
     = Inr (3, diamond_later (snd (projr (addAndRecurse 2 cyclic_objects 3 0 diamond_state)))) \<and>
   step_nodes (diamond_later (snd (projr (addAndRecurse 2 cyclic_objects 3 0 diamond_state)))) \<and>
   snd (projr (addAndRecurse 5 cyclic_objects 0 0 initial))
     = dependOn 1 [4] (dependOn 4 [3]
         (diamond_later (snd (projr (addAndRecurse 2 cyclic_objects 3 0 diamond_state))))) \<and>
   next_ref (snd (projr (addAndRecurse 5 cyclic_objects 0 0 initial))) = 5 \<and>
   map (\<lambda>n. dependencies (heap (snd (projr (addAndRecurse 5 cyclic_objects 0 0 initial))) n))
     [1, 2, 3, 4] = [[2, 4], [3], [1], [3]]"
proof -
  let ?W = cyclic_objects
  let ?R = "addAndRecurse 2 ?W 3 0 diamond_state"
  have e: "\<not> isl ?R \<and> fst (projr ?R) = 3 \<and> added diamond_state 3 = None \<and>
      next_ref diamond_state = 3"
    by (simp add: diamond_eval eval_nat_numeral)
  then obtain n s where r: "?R = Inr (n, s)" by (cases ?R) auto
  have n: "n = 3" using e unfolding r by simp
  have un: "added diamond_state 3 = None" using e by simp
  note T = addAndRecurse_idempotent[OF r]
  have a3: "added s 3 = Some n" using T by (elim conjE)
  have i0: "step_nodes diamond_state"
  proof -
    have p1: "place ?W 0 0 initial = Inr (1, 0, snd (snd (projr (place ?W 0 0 initial))))"
      by (simp add: diamond_eval)
    have p2: "place ?W 1 0 (snd (snd (projr (place ?W 0 0 initial)))) = Inr (2, 0, diamond_state)"
      by (simp add: diamond_eval)
    have u1: "added initial 0 = None" by (simp add: initial_def)
    have u2: "added (snd (snd (projr (place ?W 0 0 initial)))) 1 = None"
      by (simp add: diamond_eval)
    have "reaches ?W initial diamond_state"
      using reaches_place[OF reaches_place[OF reaches_refl u1 p1] u2 p2] .
    then show ?thesis using step_nodes_initial by (rule reaches_step_nodes)
  qed
  have u: "added (dependOn 1 [2] (dependOn 2 [3] s)) 2 = None"
    using arg_cong[OF r, of "\<lambda>x. added (snd (projr x)) 2"]
    by (simp add: diamond_eval eval_nat_numeral)
  have p: "place ?W 2 0 (dependOn 1 [2] (dependOn 2 [3] s)) = Inr (4, 0, diamond_later s)"
    using arg_cong[OF r, of "\<lambda>x. place ?W 2 0 (dependOn 1 [2] (dependOn 2 [3] (snd (projr x))))
        = Inr (4, 0, diamond_later (snd (projr x)))"]
    by (simp add: diamond_eval eval_nat_numeral)
  have re: "reaches ?W s (diamond_later s)"
    using reaches_place[OF reaches_dependOn[OF reaches_dependOn[OF reaches_refl]] u p] .
  have L: "added (diamond_later s) 3 = Some n \<and>
        (\<forall>k' parent'. addAndRecurse (Suc k') ?W 3 parent' (diamond_later s) = Inr (n, diamond_later s)) \<and>
        (step_nodes diamond_state \<longrightarrow> step_nodes (diamond_later s))"
    using T re by blast
  have rep: "addAndRecurse (Suc 0) ?W 3 0 (diamond_later s) = Inr (3, diamond_later s)"
    using L n by blast
  have sn: "step_nodes (diamond_later s)" using L i0 by blast
  have c: "added (diamond_later s) 2 = Some 4"
    using place_Inr[OF u p] by simp
  have whole: "next_ref (snd (projr (addAndRecurse 5 ?W 0 0 initial))) = 5 \<and>
     map (\<lambda>n. dependencies (heap (snd (projr (addAndRecurse 5 ?W 0 0 initial))) n))
       [1, 2, 3, 4] = [[2, 4], [3], [1], [3]]"
    by (simp add: diamond_eval eval_nat_numeral)
  have tie: "snd (projr (addAndRecurse 5 ?W 0 0 initial))
     = dependOn 1 [4] (dependOn 4 [3] (diamond_later (snd (projr ?R))))"
    by (simp add: diamond_eval eval_nat_numeral)
  show ?thesis using e whole re rep sn c tie[unfolded r] unfolding r n by simp
qed

text \<open>
  C8: step addition returns for every finite set of Steps, cyclic or not. When the
  dependency steps of the Steps listed in \<open>xs\<close> are in \<open>xs\<close>, a call for one of them
  whose depth bound exceeds the number of Steps of \<open>xs\<close> not yet in the memo returns
  (a node or the container's error, never the cut-off), and a larger bound gives the
  same result: the recursion is never deeper than the number of Steps not yet visited.
  The witness is the cycle A, B, C, D.
\<close>

theorem addAndRecurse_terminates:
  "closed W xs \<Longrightarrow> step \<in> set xs \<Longrightarrow> unvisited xs st < fuel \<Longrightarrow>
     addAndRecurse fuel W step parent st \<noteq> Inl OutOfFuel \<and>
     (\<forall>fuel'\<ge>fuel. addAndRecurse fuel' W step parent st = addAndRecurse fuel W step parent st)"
proof -
  assume a: "closed W xs" "step \<in> set xs" "unvisited xs st < fuel"
  have r: "addAndRecurse fuel W step parent st \<noteq> Inl OutOfFuel"
    using a by (rule addAndRecurse_returns)
  show ?thesis
  proof (intro conjI allI impI)
    show "addAndRecurse fuel W step parent st \<noteq> Inl OutOfFuel" by (rule r)
  next
    fix fuel' assume "fuel \<le> fuel'"
    then show "addAndRecurse fuel' W step parent st = addAndRecurse fuel W step parent st"
      using r by (rule addAndRecurse_fuel_le)
  qed
qed

theorem addAndRecurse_terminates_witness:
  "closed cyclic_objects [0, 1, 2, 3] \<and> (0::nat) \<in> set [0, 1, 2, 3] \<and>
   unvisited [0, 1, 2, 3] initial < 5 \<and>
   addAndRecurse 5 cyclic_objects 0 0 initial \<noteq> Inl OutOfFuel \<and>
   addAndRecurse 8 cyclic_objects 0 0 initial = addAndRecurse 5 cyclic_objects 0 0 initial"
proof -
  have h1: "closed cyclic_objects [0, 1, 2, 3]"
    by (simp add: closed_def cyclic_objects_def plain_step_def)
  have h2: "(0::nat) \<in> set [0, 1, 2, 3]" by simp
  have h3: "unvisited [0, 1, 2, 3] initial < 5" by (simp add: unvisited_def initial_def)
  have h4: "(5::nat) \<le> 8" by simp
  from addAndRecurse_terminates[OF h1 h2 h3, of 0] h4
  have "addAndRecurse 5 cyclic_objects 0 0 initial \<noteq> Inl OutOfFuel \<and>
    addAndRecurse 8 cyclic_objects 0 0 initial = addAndRecurse 5 cyclic_objects 0 0 initial"
    by blast
  then show ?thesis using h1 h2 h3 by blast
qed

section \<open>Placement of source steps\<close>

lemma well_formed_frame: "frame X st st' \<Longrightarrow> well_formed st \<Longrightarrow> well_formed st'"
  unfolding well_formed_def frame_def same_fields_def memo_ext_def children_fresh_def
  apply (intro conjI)
    apply simp
   apply (metis less_le_trans)
  apply (metis less_le_trans)
  done

lemma tryGetChild_frame:
  assumes f: "frame X st st'" and g: "g < next_ref st"
    and ch: "\<And>c. c \<in> set (children (heap st g)) \<Longrightarrow> c < next_ref st"
    and t: "tryGetChild g name st = Some c"
  shows "tryGetChild g name st' = Some c"
proof -
  obtain cs where cs: "children (heap st' g) = children (heap st g) @ cs"
    using frame_children_prefix[OF f g] by blast
  have "find (\<lambda>c. node_id (heap st' c) = name) (children (heap st g))
      = find (\<lambda>c. node_id (heap st c) = name) (children (heap st g))"
    by (rule find_cong_set) (simp add: frame_node_id[OF f] ch)
  then show ?thesis using t by (simp add: tryGetChild_def cs find_append_eq)
qed

lemma tryGetChild_mem: "tryGetChild g name st = Some c \<Longrightarrow> c \<in> set (children (heap st g))"
  by (auto simp: tryGetChild_def find_Some_iff)

lemma place_source_parent:
  "isCodePipelineSource (steps W step) \<Longrightarrow> place W step p st = place W step p' st"
  by (simp add: place_def)

text \<open>
  C3, as amended: a source step not yet visited is attached under the root's child
  named "Source" and under no other node, and the call's result does not depend on the
  requested parent at all. So the node is never under the requested parent, unless the
  requested parent is the "Source" group itself.
\<close>

theorem source_step_placement:
  assumes wf: "well_formed st" and un: "added st step = None"
    and src: "isCodePipelineSource (steps W step)"
    and r: "addAndRecurse k W step parent st = Inr (node, st')"
  shows "\<exists>source. tryGetChild (graph st') ''Source'' st' = Some source \<and>
           node \<in> set (children (heap st' source)) \<and>
           (\<forall>x. x \<noteq> source \<longrightarrow> node \<notin> set (children (heap st' x))) \<and>
           (\<forall>p. addAndRecurse k W step p st = Inr (node, st'))"
proof -
  obtain k' where k: "k = Suc k'" using r by (cases k) auto
  from r un obtain parent' st4 where
    pl: "place W step parent st = Inr (node, parent', st4)"
    and lp: "addAndRecurse_deps (addAndRecurse k' W) node parent' (dependencySteps (steps W step)) st4 = Inr st'"
    unfolding k addAndRecurse_Suc by (auto split: sum.splits)
  note P = place_Inr[OF un pl]
  have ok: "rec_ok (addAndRecurse k' W)" unfolding rec_ok_def using addAndRecurse_frame by blast
  have f4: "frame {..<next_ref st} st st4" using P by simp
  have fl: "frame ({..<next_ref st4} - {node}) st4 st'" using deps_loop_frame[OF ok lp] .
  have wf4: "well_formed st4" using well_formed_frame[OF f4 wf] .
  have t4: "tryGetChild (graph st4) ''Source'' st4 = Some parent'" using P src by simp
  have g4: "graph st4 < next_ref st4" using wf4 by (simp add: well_formed_def)
  have ch4: "\<And>x c. c \<in> set (children (heap st4 x)) \<Longrightarrow> c < next_ref st4"
    using wf4 by (simp add: well_formed_def)
  have "graph st' = graph st4" using frame_same_fields[OF fl] by (simp add: same_fields_def)
  then have t': "tryGetChild (graph st') ''Source'' st' = Some parent'"
    using tryGetChild_frame[OF fl g4 ch4 t4] by simp
  have "parent' < next_ref st4" using tryGetChild_mem[OF t4] ch4 by blast
  then have m: "node \<in> set (children (heap st' parent'))"
    using frame_children[OF fl] P by blast
  have nx: "node \<notin> set (children (heap st' x))" if "x \<noteq> parent'" for x
  proof
    assume "node \<in> set (children (heap st' x))"
    then have "node \<in> set (children (heap st4 x))"
      using frame_children_fresh[OF fl] P by fastforce
    then have "node \<in> set (children (heap st x))" using P that by blast
    then show False using wf P by (auto simp: well_formed_def)
  qed
  have ind: "addAndRecurse k W step p st = Inr (node, st')" for p
    using r un place_source_parent[OF src, of p st parent] unfolding k addAndRecurse_Suc
    by simp
  show ?thesis using t' m nx ind by blast
qed

lemmas source_eval = source_objects_def source_step_def initial_def build_state_def
  addAndRecurse.simps GraphNode_of_def topLevelGraph_def tryGetChild_def dependOn_def

theorem source_step_placement_witness:
  "well_formed build_state \<and> added build_state 0 = None \<and>
   isCodePipelineSource (steps source_objects 0) \<and>
   \<not> isl (addAndRecurse 1 source_objects 0 1 build_state) \<and>
   (\<exists>source. tryGetChild 0 ''Source'' (snd (projr (addAndRecurse 1 source_objects 0 1 build_state)))
        = Some source \<and>
      fst (projr (addAndRecurse 1 source_objects 0 1 build_state))
        \<in> set (children (heap (snd (projr (addAndRecurse 1 source_objects 0 1 build_state))) source)) \<and>
      fst (projr (addAndRecurse 1 source_objects 0 1 build_state))
        \<notin> set (children (heap (snd (projr (addAndRecurse 1 source_objects 0 1 build_state))) 1)))"
proof -
  let ?R = "addAndRecurse 1 source_objects 0 1 build_state"
  have h1: "well_formed build_state" by (simp add: well_formed_def source_eval)
  have h2: "added build_state 0 = None" by (simp add: source_eval)
  have h3: "isCodePipelineSource (steps source_objects 0)" by (simp add: source_eval)
  have e: "\<not> isl ?R \<and> graph (snd (projr ?R)) = 0 \<and>
     tryGetChild 0 ''Source'' (snd (projr ?R)) \<noteq> Some 1"
    by (simp add: source_eval)
  then obtain n s where r: "?R = Inr (n, s)" by (cases ?R) auto
  from source_step_placement[OF h1 h2 h3 r] obtain source where
    "tryGetChild (graph s) ''Source'' s = Some source" "n \<in> set (children (heap s source))"
    "\<forall>x. x \<noteq> source \<longrightarrow> n \<notin> set (children (heap s x))"
    by blast
  then have "tryGetChild 0 ''Source'' s = Some source \<and> n \<in> set (children (heap s source)) \<and>
    n \<notin> set (children (heap s 1))"
    using e unfolding r by auto
  then show ?thesis using h1 h2 h3 e unfolding r by auto
qed

text \<open>
  C3 as stated ("never under the requested parent") fails when the requested parent is
  the "Source" group, as it is when \<^verbatim>\<open>addAndRecurse\<close> recurses into the dependency
  steps of a source step: after the source step Repo has been added, adding the source
  step Repo2 with the "Source" group as the requested parent puts the new node under
  that requested parent.
\<close>

theorem source_step_under_requested_parent:
  "(case addAndRecurse 1 source_objects 0 1 build_state of
      Inl e \<Rightarrow> False
    | Inr (n0, st1) \<Rightarrow>
        (case tryGetChild (graph st1) ''Source'' st1 of
           None \<Rightarrow> False
         | Some source \<Rightarrow>
             added st1 1 = None \<and> isCodePipelineSource (steps source_objects 1) \<and>
             (case addAndRecurse 1 source_objects 1 source st1 of
                Inl e \<Rightarrow> False
              | Inr (n1, st2) \<Rightarrow> n1 \<in> set (children (heap st2 source)))))"
  by (simp add: source_eval)

section \<open>The pre/post barrier\<close>


lemma dependencies_dependOn:
  "dependencies (heap (dependOn n ds st) x)
     = (if x = n then dependencies (heap st n) @ ds else dependencies (heap st x))"
  by (simp add: dependOn_def)



lemma grows_refl: "grows st st"
  by (simp add: grows_def same_fields_def memo_ext_def shape_same_def children_fresh_def)

lemma grows_trans:
  assumes ab: "grows a b" and bc: "grows b c"
  shows "grows a c"
proof -
  have l1: "next_ref a \<le> next_ref b" and l2: "next_ref b \<le> next_ref c"
    using ab bc by (simp_all add: grows_def)
  have "same_fields a c" using ab bc same_fields_trans by (simp add: grows_def) blast
  moreover have "memo_ext a c" using memo_ext_trans[OF l1 l2] ab bc by (simp add: grows_def)
  moreover have "shape_same a c" using shape_same_trans[OF l1] ab bc by (simp add: grows_def)
  moreover have "children_fresh a c" using children_fresh_trans[OF l1 l2] ab bc by (simp add: grows_def)
  moreover have "\<forall>n<next_ref a. set (dependencies (heap a n)) \<subseteq> set (dependencies (heap c n))"
  proof (intro allI impI)
    fix n assume n: "n < next_ref a"
    then have "set (dependencies (heap a n)) \<subseteq> set (dependencies (heap b n))"
      using ab by (simp add: grows_def)
    moreover have "set (dependencies (heap b n)) \<subseteq> set (dependencies (heap c n))"
      using bc n l1 by (simp add: grows_def)
    ultimately show "set (dependencies (heap a n)) \<subseteq> set (dependencies (heap c n))" by blast
  qed
  ultimately show ?thesis using l1 l2 by (simp add: grows_def)
qed

lemma frame_grows: "frame {..<next_ref st} st st' \<Longrightarrow> grows st st'"
  by (simp add: frame_def grows_def deps_same_def)

lemma grows_dependOn: "grows st (dependOn n ds st)"
  by (auto simp: dependOn_def grows_def same_fields_def memo_ext_def shape_same_def children_fresh_def)

lemma grows_collection_dependOn: "grows st (collection_dependOn ns ds st)"
proof (induction ns arbitrary: st)
  case Nil
  then show ?case by (simp add: grows_refl)
next
  case (Cons n ns)
  show ?case using grows_trans[OF grows_dependOn Cons] by simp
qed

lemma grows_addAndRecurse: "addAndRecurse k W d p s = Inr (r, s') \<Longrightarrow> grows s s'"
  using addAndRecurse_frame frame_grows by blast




lemma well_formed_grows: "grows st st' \<Longrightarrow> well_formed st \<Longrightarrow> well_formed st'"
  unfolding well_formed_def grows_def same_fields_def memo_ext_def children_fresh_def
  apply (intro conjI)
    apply simp
   apply (metis less_le_trans)
  apply (metis less_le_trans)
  done

lemma grows_addPrePost_pre:
  "addPrePost_pre fuel W B parent ps st = Inr st' \<Longrightarrow> grows st st'"
proof (induction ps arbitrary: st)
  case Nil
  then show ?case by (simp add: grows_refl)
next
  case (Cons p ps)
  from Cons.prems obtain n st1 where
    r: "addAndRecurse fuel W p parent st = Inr (n, st1)"
    and l: "addPrePost_pre fuel W B parent ps (collection_dependOn B [n] st1) = Inr st'"
    by (auto split: sum.splits)
  show ?case
    using grows_trans[OF grows_addAndRecurse[OF r]
        grows_trans[OF grows_collection_dependOn Cons.IH[OF l]]] .
qed

lemma grows_addPrePost_post:
  "addPrePost_post fuel W B parent ps st = Inr st' \<Longrightarrow> grows st st'"
proof (induction ps arbitrary: st)
  case Nil
  then show ?case by (simp add: grows_refl)
next
  case (Cons p ps)
  from Cons.prems obtain n st1 where
    r: "addAndRecurse fuel W p parent st = Inr (n, st1)"
    and l: "addPrePost_post fuel W B parent ps (dependOn n B st1) = Inr st'"
    by (auto split: sum.splits)
  show ?case
    using grows_trans[OF grows_addAndRecurse[OF r] grows_trans[OF grows_dependOn Cons.IH[OF l]]] .
qed

lemma addPrePost_Inr:
  "addPrePost fuel W pre post parent st = Inr st' \<Longrightarrow>
   \<exists>st1. addPrePost_pre fuel W (children (heap st parent)) parent pre st = Inr st1 \<and>
     addPrePost_post fuel W (children (heap st parent)) parent post st1 = Inr st'"
  by (auto simp: addPrePost_def split: sum.splits)

lemma grows_addPrePost:
  assumes "addPrePost fuel W pre post parent st = Inr st'"
  shows "grows st st'"
proof -
  from addPrePost_Inr[OF assms] obtain st1 where
    1: "addPrePost_pre fuel W (children (heap st parent)) parent pre st = Inr st1"
    and 2: "addPrePost_post fuel W (children (heap st parent)) parent post st1 = Inr st'"
    by blast
  show ?thesis using grows_trans[OF grows_addPrePost_pre[OF 1] grows_addPrePost_post[OF 2]] .
qed


lemma added_collection_dependOn [simp]: "added (collection_dependOn ns ds st) = added st"
  by (induction ns arbitrary: st) auto

lemma next_ref_collection_dependOn [simp]: "next_ref (collection_dependOn ns ds st) = next_ref st"
  by (induction ns arbitrary: st) auto



lemma memo_wf_dependOn [simp]: "memo_wf (dependOn n ds st) = memo_wf st"
  by (simp add: memo_wf_def)

lemma memo_wf_collection_dependOn [simp]: "memo_wf (collection_dependOn ns ds st) = memo_wf st"
  by (simp add: memo_wf_def)














section \<open>What compilation preserves\<close>

text \<open>
  Every function the constructor calls keeps the allocator monotone, the kind of
  annotation, the children and the dependencies of the nodes it found, the
  cloud-assembly file set, and the asset memo on publish nodes; and none of them raises
  the missing-output or the wrong-data-type error.
\<close>

lemma step_ok_refl: "step_ok st st"
  by (simp add: step_ok_def)

lemma step_ok_trans:
  assumes ab: "step_ok a b" and bc: "step_ok b c"
  shows "step_ok a c"
  unfolding step_ok_def
proof (intro conjI allI impI)
  show "next_ref a \<le> next_ref c" using ab bc by (simp add: step_ok_def)
  show "assets_ok c" if "assets_ok a" using that ab bc by (simp add: step_ok_def)
  show "cloudAssemblyFileSet c = cloudAssemblyFileSet a" using ab bc by (simp add: step_ok_def)
  fix n assume n: "n < next_ref a"
  then have nb: "n < next_ref b" using ab by (simp add: step_ok_def)
  show "ann_kind (data (heap c n)) = ann_kind (data (heap a n))"
    using ab bc n nb by (simp add: step_ok_def)
  show "set (dependencies (heap a n)) \<subseteq> set (dependencies (heap c n))"
    using ab bc n nb unfolding step_ok_def by blast
  show "set (children (heap a n)) \<subseteq> set (children (heap c n))"
    using ab bc n nb unfolding step_ok_def by blast
qed

lemma assets_ok_kind:
  assumes "assets_ok st" and "next_ref st \<le> next_ref st'" and "assetNodes st' = assetNodes st"
    and "\<And>n. n < next_ref st \<Longrightarrow> ann_kind (data (heap st' n)) = ann_kind (data (heap st n))"
  shows "assets_ok st'"
  unfolding assets_ok_def
proof (intro allI impI)
  fix k n assume a: "assetNodes st' k = Some n"
  then have n: "n < next_ref st" and "\<exists>xs. data (heap st n) = Some (PublishAssets xs)"
    using assms(1,3) by (auto simp: assets_ok_def)
  then obtain xs where "ann_kind (data (heap st' n)) = ann_kind (Some (PublishAssets xs))"
    using assms(4) by fastforce
  then have "\<exists>ys. data (heap st' n) = Some (PublishAssets ys)"
    by (cases "data (heap st' n)" rule: ann_kind.cases) auto
  then show "n < next_ref st' \<and> (\<exists>xs. data (heap st' n) = Some (PublishAssets xs))"
    using n assms(2) by simp
qed

lemma grows_step_ok: "grows st st' \<Longrightarrow> step_ok st st'"
  unfolding step_ok_def
proof (intro conjI allI impI)
  assume g: "grows st st'"
  show "next_ref st \<le> next_ref st'" using g by (simp add: grows_def)
  have sh: "\<And>n. n < next_ref st \<Longrightarrow> data (heap st' n) = data (heap st n)"
    using g by (simp add: grows_def shape_same_def)
  show "assets_ok st'" if "assets_ok st"
    apply (rule assets_ok_kind[OF that])
    using g sh by (simp_all add: grows_def same_fields_def)
  show "cloudAssemblyFileSet st' = cloudAssemblyFileSet st"
    using g by (simp add: grows_def same_fields_def)
  fix n assume n: "n < next_ref st"
  show "ann_kind (data (heap st' n)) = ann_kind (data (heap st n))" using sh n by simp
  show "set (dependencies (heap st n)) \<subseteq> set (dependencies (heap st' n))"
    using g n by (simp add: grows_def)
  show "set (children (heap st n)) \<subseteq> set (children (heap st' n))"
    using g n by (auto simp: grows_def shape_same_def)
qed

lemma step_ok_GraphNode_of: "GraphNode_of name d st = (n, st') \<Longrightarrow> step_ok st st'"
  using frame_GraphNode_of frame_grows grows_step_ok by blast

lemma step_ok_dependOn: "step_ok st (dependOn n ds st)"
  using grows_dependOn grows_step_ok by blast

lemma step_ok_attach: "step_ok st (attach g n st)"
  unfolding step_ok_def
proof (intro conjI allI impI)
  show "assets_ok (attach g n st)" if "assets_ok st"
    by (rule assets_ok_kind[OF that]) (simp_all add: attach_def)
qed (auto simp: attach_def)

lemma step_ok_Graph_add: "Graph_add g ns st = Inr st' \<Longrightarrow> step_ok st st'"
proof (induction ns arbitrary: st)
  case Nil
  then show ?case by (simp add: step_ok_refl)
next
  case (Cons n ns)
  from Cons.prems have "Graph_add g ns (attach g n st) = Inr st'"
    by (auto simp: attach_def split: option.splits)
  then show ?case using step_ok_trans[OF step_ok_attach Cons.IH] by blast
qed

lemma Graph_of_Inr:
  "Graph_of name d ns st = Inr (g, st') \<Longrightarrow>
     g = next_ref st \<and> g < next_ref st' \<and> step_ok st st' \<and> ann_kind (data (heap st' g)) = ann_kind d"
proof -
  assume a: "Graph_of name d ns st = Inr (g, st')"
  obtain n st1 where b: "GraphNode_of name d st = (n, st1)" by fastforce
  from a b have c: "Graph_add n ns st1 = Inr st'" and gn: "g = n"
    by (auto simp: Graph_of_def split: sum.splits)
  have n: "n = next_ref st" and nx: "next_ref st1 = Suc (next_ref st)" and dd: "data (heap st1 n) = d"
    using b by (auto simp: GraphNode_of_def)
  note s2 = step_ok_Graph_add[OF c]
  have "ann_kind (data (heap st' n)) = ann_kind (data (heap st1 n))"
    using s2 nx n by (simp add: step_ok_def)
  moreover have "n < next_ref st'" using s2 nx n by (simp add: step_ok_def)
  ultimately show ?thesis
    using gn n dd step_ok_trans[OF step_ok_GraphNode_of[OF b] s2] by simp
qed

lemma Graph_of_error: "Graph_of name d ns st = Inl e \<Longrightarrow> plain_error e"
  by (auto simp: Graph_of_def plain_error_def split: prod.splits sum.splits dest: Graph_add_error
      simp del: Graph_add.simps)

lemma deps_loop_error:
  assumes "\<And>d p s e. recurse d p s = Inl e \<Longrightarrow> plain_error e"
  shows "addAndRecurse_deps recurse node parent ds st = Inl e \<Longrightarrow> plain_error e"
proof (induction ds arbitrary: st)
  case Nil
  then show ?case by simp
next
  case (Cons d ds)
  show ?case
  proof (cases "recurse d parent st")
    case (Inl e')
    then show ?thesis using Cons.prems assms by auto
  next
    case (Inr a)
    then show ?thesis using Cons by (auto split: prod.splits)
  qed
qed

lemma addAndRecurse_error: "addAndRecurse k W d p s = Inl e \<Longrightarrow> plain_error e"
proof (induction k arbitrary: d p s e)
  case 0
  then show ?case by (simp add: plain_error_def)
next
  case (Suc k)
  show ?case
  proof (cases "added s d")
    case (Some a)
    then show ?thesis using Suc.prems by (simp add: addAndRecurse_Suc)
  next
    case None
    show ?thesis
    proof (cases "place W d p s")
      case (Inl e')
      then have "e = e'" using Suc.prems None by (simp add: addAndRecurse_Suc)
      then show ?thesis using place_error[OF Inl] by (auto simp: plain_error_def)
    next
      case (Inr a)
      obtain node parent' st4 where a: "a = (node, parent', st4)" by (cases a)
      have "addAndRecurse_deps (addAndRecurse k W) node parent' (dependencySteps (steps W d)) st4 = Inl e"
        using Suc.prems None Inr a by (auto simp: addAndRecurse_Suc split: sum.splits)
      then show ?thesis using deps_loop_error[of "addAndRecurse k W"] Suc.IH by blast
    qed
  qed
qed

lemma step_ok_addAndRecurse: "addAndRecurse k W d p s = Inr (r, s') \<Longrightarrow> step_ok s s'"
  using grows_addAndRecurse grows_step_ok by blast

lemma addPrePost_error: "addPrePost fuel W pre post parent st = Inl e \<Longrightarrow> plain_error e"
proof -
  have 1: "addPrePost_pre fuel W B parent ps s = Inl e \<Longrightarrow> plain_error e" for B ps s
    by (induction ps arbitrary: s) (auto split: sum.splits dest: addAndRecurse_error)
  have 2: "addPrePost_post fuel W B parent ps s = Inl e \<Longrightarrow> plain_error e" for B ps s
    by (induction ps arbitrary: s) (auto split: sum.splits dest: addAndRecurse_error)
  assume "addPrePost fuel W pre post parent st = Inl e"
  then show ?thesis using 1 2 by (auto simp: addPrePost_def split: sum.splits)
qed

lemma step_ok_addPrePost: "addPrePost fuel W pre post parent st = Inr st' \<Longrightarrow> step_ok st st'"
  using grows_addPrePost grows_step_ok by blast

lemma publishAsset_eq:
  "publishAsset stackAsset st =
     (case topLevelGraph ''Assets'' st of
        Inl e \<Rightarrow> Inl e
      | Inr (assetsGraph, st1) \<Rightarrow>
          (case publish_lookup stackAsset st1 of
             Inl e \<Rightarrow> Inl e
           | Inr st2 \<Rightarrow> publish_new stackAsset assetsGraph st2))"
  unfolding publishAsset_def publish_lookup_def publish_new_def by (rule refl)

lemma publish_lookup_Inr: "publish_lookup a st = Inr st' \<Longrightarrow> step_ok st st' \<and> next_ref st' = next_ref st"
proof -
  assume r: "publish_lookup a st = Inr st'"
  have nx: "next_ref st' = next_ref st" and an: "assetNodes st' = assetNodes st"
    and ca: "cloudAssemblyFileSet st' = cloudAssemblyFileSet st"
    and hp: "\<And>n. ann_kind (data (heap st' n)) = ann_kind (data (heap st n)) \<and>
        dependencies (heap st' n) = dependencies (heap st n) \<and>
        children (heap st' n) = children (heap st n)"
    using r
    by (auto simp: publish_lookup_def split: option.splits GraphAnnotation.splits if_splits)
  have "assets_ok st'" if "assets_ok st"
    by (rule assets_ok_kind[OF that]) (simp_all add: nx an hp)
  then show ?thesis using nx hp ca by (simp add: step_ok_def)
qed

lemma publish_lookup_Inl:
  "publish_lookup a st = Inl e \<longleftrightarrow>
     (\<exists>n. assetNodes st (assetId a) = Some n \<and> (\<forall>xs. data (heap st n) \<noteq> Some (PublishAssets xs)) \<and>
        e = WrongDataType n (map_option type_of (data (heap st n))))"
  by (auto simp: publish_lookup_def split: option.splits GraphAnnotation.splits)

lemma publish_new_Inr:
  assumes r: "publish_new a ag st = Inr (n, st')"
  shows "step_ok st st' \<and> n = next_ref st \<and> n < next_ref st'"
proof -
  obtain name st3 where c: "(if assetType a = FILE
            then (''FileAsset'' @ string_of_nat (Suc (fileAssetCtr st)),
                  st\<lparr>fileAssetCtr := Suc (fileAssetCtr st)\<rparr>)
            else (''DockerAsset'' @ string_of_nat (Suc (dockerAssetCtr st)),
                  st\<lparr>dockerAssetCtr := Suc (dockerAssetCtr st)\<rparr>)) = (name, st3)"
    by fastforce
  have h3: "heap st3 = heap st" "next_ref st3 = next_ref st" "assetNodes st3 = assetNodes st"
    "cloudAssemblyFileSet st3 = cloudAssemblyFileSet st"
    using c by (auto split: if_splits)
  obtain m st4 where g: "GraphNode_of name (Some (PublishAssets [a])) st3 = (m, st4)" by fastforce
  let ?s4 = "st4\<lparr>assetNodes := (assetNodes st4)(assetId a \<mapsto> m)\<rparr>"
  from r c g obtain st5 where ad: "Graph_add ag [m] ?s4 = Inr st5"
    and nm: "n = m" and s': "st' = dependOn m (definedNodes [lastPreparationNode st5]) st5"
    by (auto simp: publish_new_def split: sum.splits simp del: Graph_add.simps)
  have m: "m = next_ref st" and nx4: "next_ref st4 = Suc (next_ref st)"
    and d4: "data (heap st4 m) = Some (PublishAssets [a])"
    and an4: "assetNodes st4 = assetNodes st"
    and ca4: "cloudAssemblyFileSet st4 = cloudAssemblyFileSet st"
    and h4: "\<And>x. x < next_ref st \<Longrightarrow> heap st4 x = heap st x"
    using g h3 by (auto simp: GraphNode_of_def)
  have s34: "step_ok st ?s4"
    unfolding step_ok_def
  proof (intro conjI allI impI)
    show "next_ref st \<le> next_ref ?s4" using nx4 by simp
    show "assets_ok ?s4" if "assets_ok st"
      using that d4 nx4 m an4 h4 by (auto simp: assets_ok_def less_Suc_eq)
  qed (simp_all add: h4 ca4)
  have s45: "step_ok ?s4 st5" using step_ok_Graph_add[OF ad] .
  have s5: "step_ok st5 st'" unfolding s' by (rule step_ok_dependOn)
  have "step_ok st st'" using step_ok_trans[OF s34 step_ok_trans[OF s45 s5]] .
  moreover have "m < next_ref st'" using s45 s5 nx4 m by (simp add: step_ok_def)
  ultimately show ?thesis using nm m by simp
qed

lemma publish_new_error: "publish_new a ag st = Inl e \<Longrightarrow> plain_error e"
  by (auto simp: publish_new_def plain_error_def split: prod.splits sum.splits if_splits
      dest: Graph_add_error simp del: Graph_add.simps)

lemma publishAsset_Inr:
  assumes r: "publishAsset a st = Inr (n, st')"
  shows "step_ok st st' \<and> next_ref st \<le> n \<and> n < next_ref st'"
proof -
  from r obtain ag st1 st2 where
    1: "topLevelGraph ''Assets'' st = Inr (ag, st1)"
    and 2: "publish_lookup a st1 = Inr st2"
    and 3: "publish_new a ag st2 = Inr (n, st')"
    unfolding publishAsset_eq by (auto split: sum.splits)
  have s1: "step_ok st st1" using grows_step_ok[OF frame_grows[OF frame_topLevelGraph[OF 1]]] .
  note s2 = publish_lookup_Inr[OF 2]
  note s3 = publish_new_Inr[OF 3]
  have "step_ok st st'" using step_ok_trans[OF s1 step_ok_trans] s2 s3 by blast
  moreover have "next_ref st \<le> n" using s1 s2 s3 by (simp add: step_ok_def)
  ultimately show ?thesis using s3 by simp
qed

lemma publishAsset_error:
  assumes ok: "assets_ok st" and r: "publishAsset a st = Inl e"
  shows "plain_error e"
proof (cases "topLevelGraph ''Assets'' st")
  case (Inl e')
  then have "e = e'" using r unfolding publishAsset_eq by simp
  then show ?thesis using topLevelGraph_error[OF Inl] by (auto simp: plain_error_def)
next
  case (Inr x)
  obtain ag st1 where x: "x = (ag, st1)" by (cases x)
  have ok1: "assets_ok st1"
    using grows_step_ok[OF frame_grows[OF frame_topLevelGraph[OF Inr[unfolded x]]]] ok
    by (simp add: step_ok_def)
  show ?thesis
  proof (cases "publish_lookup a st1")
    case (Inl e')
    then have False using ok1 by (auto simp: publish_lookup_Inl assets_ok_def)
    then show ?thesis ..
  next
    case (Inr st2)
    then have "publish_new a ag st2 = Inl e"
      using r \<open>topLevelGraph ''Assets'' st = Inr x\<close> x unfolding publishAsset_eq by simp
    then show ?thesis by (rule publish_new_error)
  qed
qed

lemma step_ok_next: "step_ok a b \<Longrightarrow> next_ref a \<le> next_ref b"
  by (simp add: step_ok_def)

lemma step_ok_assets: "step_ok a b \<Longrightarrow> assets_ok a \<Longrightarrow> assets_ok b"
  by (simp add: step_ok_def)

lemma step_ok_deps: "step_ok a b \<Longrightarrow> n < next_ref a \<Longrightarrow> m \<in> set (dependencies (heap a n))
  \<Longrightarrow> m \<in> set (dependencies (heap b n))"
  by (auto simp: step_ok_def)

lemma step_ok_children: "step_ok a b \<Longrightarrow> n < next_ref a \<Longrightarrow> m \<in> set (children (heap a n))
  \<Longrightarrow> m \<in> set (children (heap b n))"
  by (auto simp: step_ok_def)

lemma step_ok_kind: "step_ok a b \<Longrightarrow> n < next_ref a
  \<Longrightarrow> ann_kind (data (heap b n)) = ann_kind (data (heap a n))"
  by (simp add: step_ok_def)

lemma ann_kind_StackGroup: "ann_kind d = Some (StackGroup s) \<longleftrightarrow> d = Some (StackGroup s)"
  by (cases d rule: ann_kind.cases) auto

lemma ann_kind_Prepare: "ann_kind d = Some (Prepare s) \<longleftrightarrow> d = Some (Prepare s)"
  by (cases d rule: ann_kind.cases) auto

lemma ann_kind_Execute: "ann_kind d = Some (Execute s) \<longleftrightarrow> d = Some (Execute s)"
  by (cases d rule: ann_kind.cases) auto

lemma step_ok_StackGroup: "step_ok a b \<Longrightarrow> n < next_ref a \<Longrightarrow> data (heap a n) = Some (StackGroup s)
  \<Longrightarrow> data (heap b n) = Some (StackGroup s)"
  using step_ok_kind[of a b n] ann_kind_StackGroup[of "data (heap b n)" s] by simp

lemma step_ok_Prepare: "step_ok a b \<Longrightarrow> n < next_ref a \<Longrightarrow> data (heap a n) = Some (Prepare s)
  \<Longrightarrow> data (heap b n) = Some (Prepare s)"
  using step_ok_kind[of a b n] ann_kind_Prepare[of "data (heap b n)" s] by simp

lemma step_ok_Execute: "step_ok a b \<Longrightarrow> n < next_ref a \<Longrightarrow> data (heap a n) = Some (Execute s)
  \<Longrightarrow> data (heap b n) = Some (Execute s)"
  using step_ok_kind[of a b n] ann_kind_Execute[of "data (heap b n)" s] by simp

lemma addStage_assets_Inr: "addStage_assets prep assets st = Inr st' \<Longrightarrow> step_ok st st'"
proof (induction assets arbitrary: st)
  case Nil
  then show ?case by (simp add: step_ok_refl)
next
  case (Cons a assets)
  from Cons.prems obtain n st1 where
    1: "publishAsset a st = Inr (n, st1)"
    and 2: "addStage_assets prep assets (dependOn prep [n] st1) = Inr st'"
    by (auto split: sum.splits)
  show ?case
    using step_ok_trans[OF conjunct1[OF publishAsset_Inr[OF 1]]
        step_ok_trans[OF step_ok_dependOn Cons.IH[OF 2]]] .
qed

lemma addStage_assets_error:
  "assets_ok st \<Longrightarrow> addStage_assets prep assets st = Inl e \<Longrightarrow> plain_error e"
proof (induction assets arbitrary: st)
  case Nil
  then show ?case by simp
next
  case (Cons a assets)
  show ?case
  proof (cases "publishAsset a st")
    case (Inl e')
    then show ?thesis using Cons.prems publishAsset_error by auto
  next
    case (Inr x)
    obtain n st1 where x: "x = (n, st1)" by (cases x)
    have "assets_ok (dependOn prep [n] st1)"
      using step_ok_assets[OF step_ok_trans[OF conjunct1[OF publishAsset_Inr[OF Inr[unfolded x]]]
            step_ok_dependOn] Cons.prems(1)] .
    then show ?thesis using Cons.IH Cons.prems(2) Inr x by simp
  qed
qed

lemma cloudAssemblyFileSet_dependOn [simp]:
  "cloudAssemblyFileSet (dependOn n ds st) = cloudAssemblyFileSet st"
  by (simp add: dependOn_def)

lemma addStage_stacks_Cons:
  "addStage_stacks fuel W retGraph (stack # rest) stackGraphs st =
     (case stack_pair W stack st of
        Inl e \<Rightarrow> Inl e
      | Inr (stackGraph, prep, depl, st4) \<Rightarrow>
          (case stack_rest fuel W retGraph stack prep st4 of
             Inl e \<Rightarrow> Inl e
           | Inr st6 \<Rightarrow>
               addStage_stacks fuel W retGraph rest (stackGraphs(stack \<mapsto> stackGraph)) st6))"
  by (auto simp: stack_pair_def stack_rest_def split: sum.splits prod.splits option.splits
      simp del: Graph_add.simps)

lemma stack_pair_Inr:
  assumes r: "stack_pair W s st = Inr (g, p, d, st4)"
  shows "step_ok st st4 \<and> g = next_ref st \<and> g < next_ref st4 \<and> p < next_ref st4 \<and> d < next_ref st4 \<and>
     data (heap st4 g) = Some (StackGroup s) \<and> data (heap st4 p) = Some (Prepare s) \<and>
     data (heap st4 d) = Some (Execute s) \<and> p \<in> set (children (heap st4 g)) \<and>
     d \<in> set (children (heap st4 g)) \<and> p \<in> set (dependencies (heap st4 d))"
proof -
  from r obtain st1 where 1: "Graph_of (stackName (stackDeployments W s)) (Some (StackGroup s)) [] st = Inr (g, st1)"
    by (auto simp: stack_pair_def split: sum.splits prod.splits)
  obtain p' st2 where 2: "GraphNode_of ''Prepare'' (Some (Prepare s)) st1 = (p', st2)" by fastforce
  obtain d' st3 where 3: "GraphNode_of ''Deploy'' (Some (Execute s)) st2 = (d', st3)" by fastforce
  from r 1 2 3 obtain st4' where 4: "Graph_add g [p', d'] st3 = Inr st4'"
    and pd: "p = p'" "d = d'" and s4: "st4 = dependOn d' [p'] st4'"
    by (auto simp: stack_pair_def split: sum.splits simp del: Graph_add.simps)
  have g: "g = next_ref st" and n1: "next_ref st1 = Suc (next_ref st)"
    and d1: "data (heap st1 g) = Some (StackGroup s)"
    using 1 by (auto simp: Graph_of_def GraphNode_of_def)
  have p: "p' = Suc (next_ref st)" and n2: "next_ref st2 = Suc (Suc (next_ref st))"
    and d2: "data (heap st2 g) = Some (StackGroup s)" "data (heap st2 p') = Some (Prepare s)"
    using 2 g n1 d1 by (auto simp: GraphNode_of_def)
  have d: "d' = Suc (Suc (next_ref st))" and n3: "next_ref st3 = Suc (Suc (Suc (next_ref st)))"
    and d3: "data (heap st3 g) = Some (StackGroup s)" "data (heap st3 p') = Some (Prepare s)"
      "data (heap st3 d') = Some (Execute s)"
    using 3 g p n2 d2 by (auto simp: GraphNode_of_def)
  have a4: "st4' = attach g d' (attach g p' st3)"
    using 4 by (auto simp: attach_def split: option.splits)
  have n4: "next_ref st4 = next_ref st3" unfolding s4 a4 by (simp add: attach_def)
  have dat: "data (heap st4 x) = data (heap st3 x)" for x
    unfolding s4 a4 by (simp add: attach_def dependOn_def)
  have ch: "children (heap st4 g) = children (heap st3 g) @ [p', d']"
    unfolding s4 a4 by (simp add: attach_def dependOn_def)
  have dp: "p' \<in> set (dependencies (heap st4 d'))"
    unfolding s4 by (simp add: dependencies_dependOn)
  have so: "step_ok st st4"
    unfolding s4
    using step_ok_trans[OF conjunct1[OF conjunct2[OF conjunct2[OF Graph_of_Inr[OF 1]]]]
        step_ok_trans[OF step_ok_GraphNode_of[OF 2] step_ok_trans[OF step_ok_GraphNode_of[OF 3]
            step_ok_trans[OF step_ok_Graph_add[OF 4] step_ok_dependOn]]]] .
  show ?thesis using so g p d n3 n4 dat d3 ch dp pd by simp
qed

lemma stack_pair_error: "stack_pair W s st = Inl e \<Longrightarrow> plain_error e"
  by (auto simp: stack_pair_def plain_error_def split: prod.splits sum.splits
      dest: Graph_add_error Graph_of_error simp del: Graph_add.simps)

lemma stack_rest_Inr: "stack_rest fuel W retGraph s prep st = Inr st' \<Longrightarrow> step_ok st st'"
proof -
  assume r: "stack_rest fuel W retGraph s prep st = Inr st'"
  then obtain ca n st5 where
    1: "addAndRecurse fuel W (producer ca) retGraph st = Inr (n, st5)"
    and 2: "addStage_assets prep (requiredAssets (stackDeployments W s)) (dependOn prep [n] st5) = Inr st'"
    by (auto simp: stack_rest_def split: option.splits sum.splits)
  show ?thesis
    using step_ok_trans[OF step_ok_addAndRecurse[OF 1]
        step_ok_trans[OF step_ok_dependOn addStage_assets_Inr[OF 2]]] .
qed

lemma stack_rest_error:
  assumes ok: "assets_ok st" and r: "stack_rest fuel W retGraph s prep st = Inl e"
  shows "plain_error e"
proof (cases "case customCloudAssembly (stackDeployments W s) of
              Some (Some fs) \<Rightarrow> Some fs
            | _ \<Rightarrow> cloudAssemblyFileSet st")
  case None
  then have "e = TypeError" using r by (simp add: stack_rest_def)
  then show ?thesis by (simp add: plain_error_def)
next
  case (Some ca)
  show ?thesis
  proof (cases "addAndRecurse fuel W (producer ca) retGraph st")
    case (Inl e')
    then have "e = e'" using r Some by (simp add: stack_rest_def)
    then show ?thesis using addAndRecurse_error[OF Inl] by simp
  next
    case (Inr x)
    obtain n st5 where x: "x = (n, st5)" by (cases x)
    have "assets_ok (dependOn prep [n] st5)"
      using step_ok_assets[OF step_ok_trans[OF step_ok_addAndRecurse[OF Inr[unfolded x]]
            step_ok_dependOn] ok] .
    moreover have "addStage_assets prep (requiredAssets (stackDeployments W s))
        (dependOn prep [n] st5) = Inl e"
      using r Some Inr x by (simp add: stack_rest_def)
    ultimately show ?thesis using addStage_assets_error by blast
  qed
qed

lemma sg_ok_step:
  assumes s: "step_ok st st'" and ok: "sg_ok sg st"
  shows "sg_ok sg st'"
  unfolding sg_ok_def
proof (intro allI impI)
  fix x g assume a: "sg x = Some g"
  from ok a obtain p d where
    g: "g < next_ref st" "data (heap st g) = Some (StackGroup x)"
    and pd: "p < next_ref st" "d < next_ref st"
      "p \<in> set (children (heap st g))" "d \<in> set (children (heap st g))"
      "data (heap st p) = Some (Prepare x)" "data (heap st d) = Some (Execute x)"
      "p \<in> set (dependencies (heap st d))"
    unfolding sg_ok_def by blast
  have le: "next_ref st \<le> next_ref st'" using s by (rule step_ok_next)
  have "p < next_ref st' \<and> d < next_ref st' \<and>
           p \<in> set (children (heap st' g)) \<and> d \<in> set (children (heap st' g)) \<and>
           data (heap st' p) = Some (Prepare x) \<and> data (heap st' d) = Some (Execute x) \<and>
           p \<in> set (dependencies (heap st' d))"
    using pd g le step_ok_children[OF s g(1)] step_ok_Prepare[OF s pd(1)]
      step_ok_Execute[OF s pd(2)] step_ok_deps[OF s pd(2)] by auto
  then show "g < next_ref st' \<and> data (heap st' g) = Some (StackGroup x) \<and>
        (\<exists>p d. p < next_ref st' \<and> d < next_ref st' \<and>
           p \<in> set (children (heap st' g)) \<and> d \<in> set (children (heap st' g)) \<and>
           data (heap st' p) = Some (Prepare x) \<and> data (heap st' d) = Some (Execute x) \<and>
           p \<in> set (dependencies (heap st' d)))"
    using g le step_ok_StackGroup[OF s g(1)] by auto
qed

lemma addStage_stacks_Inr:
  "addStage_stacks fuel W retGraph ss sg st = Inr (sg', st') \<Longrightarrow> sg_ok sg st \<Longrightarrow>
     step_ok st st' \<and> sg_ok sg' st' \<and> (\<forall>s. s \<in> set ss \<or> sg s \<noteq> None \<longrightarrow> sg' s \<noteq> None)"
proof (induction ss arbitrary: sg st)
  case Nil
  then show ?case by (simp add: step_ok_refl)
next
  case (Cons s ss)
  from Cons.prems(1) obtain g p d st4 st6 where
    1: "stack_pair W s st = Inr (g, p, d, st4)"
    and 2: "stack_rest fuel W retGraph s p st4 = Inr st6"
    and 3: "addStage_stacks fuel W retGraph ss (sg(s \<mapsto> g)) st6 = Inr (sg', st')"
    unfolding addStage_stacks_Cons by (auto split: sum.splits)
  note P = stack_pair_Inr[OF 1]
  have s4: "step_ok st st4" using P by simp
  have s6: "step_ok st4 st6" using stack_rest_Inr[OF 2] .
  have "sg_ok (sg(s \<mapsto> g)) st4"
    unfolding sg_ok_def
  proof (intro allI impI)
    fix x h assume a: "(sg(s \<mapsto> g)) x = Some h"
    show "h < next_ref st4 \<and> data (heap st4 h) = Some (StackGroup x) \<and>
        (\<exists>p d. p < next_ref st4 \<and> d < next_ref st4 \<and>
           p \<in> set (children (heap st4 h)) \<and> d \<in> set (children (heap st4 h)) \<and>
           data (heap st4 p) = Some (Prepare x) \<and> data (heap st4 d) = Some (Execute x) \<and>
           p \<in> set (dependencies (heap st4 d)))"
    proof (cases "x = s")
      case True
      then have "h = g" using a by simp
      then show ?thesis using P True by blast
    next
      case False
      then have "sg x = Some h" using a by simp
      then show ?thesis using sg_ok_step[OF s4 Cons.prems(2)] unfolding sg_ok_def by blast
    qed
  qed
  then have ok6: "sg_ok (sg(s \<mapsto> g)) st6" using sg_ok_step[OF s6] by blast
  note IH = Cons.IH[OF 3 ok6]
  have "step_ok st st'" using step_ok_trans[OF s4 step_ok_trans[OF s6]] IH by blast
  moreover have "\<forall>x. x \<in> set (s # ss) \<or> sg x \<noteq> None \<longrightarrow> sg' x \<noteq> None"
    using IH by auto
  ultimately show ?case using IH by blast
qed

lemma addStage_stacks_error:
  "assets_ok st \<Longrightarrow> addStage_stacks fuel W retGraph ss sg st = Inl e \<Longrightarrow> plain_error e"
proof (induction ss arbitrary: sg st)
  case Nil
  then show ?case by simp
next
  case (Cons s ss)
  show ?case
  proof (cases "stack_pair W s st")
    case (Inl e')
    then have "e = e'" using Cons.prems(2) unfolding addStage_stacks_Cons by simp
    then show ?thesis using stack_pair_error[OF Inl] by simp
  next
    case (Inr x)
    obtain g p d st4 where x: "x = (g, p, d, st4)" by (cases x)
    have ok4: "assets_ok st4"
      using stack_pair_Inr[OF Inr[unfolded x]] Cons.prems(1) step_ok_assets by blast
    show ?thesis
    proof (cases "stack_rest fuel W retGraph s p st4")
      case (Inl e')
      then have "e = e'" using Cons.prems(2) Inr x unfolding addStage_stacks_Cons by simp
      then show ?thesis using stack_rest_error[OF ok4 Inl] by simp
    next
      case (Inr st6)
      have ok6: "assets_ok st6" using step_ok_assets[OF stack_rest_Inr[OF Inr] ok4] .
      have "addStage_stacks fuel W retGraph ss (sg(s \<mapsto> g)) st6 = Inl e"
        using Cons.prems(2) \<open>stack_pair W s st = Inr x\<close> x Inr unfolding addStage_stacks_Cons by simp
      then show ?thesis using Cons.IH[OF ok6] by blast
    qed
  qed
qed

section \<open>Cross-stack ordering\<close>

lemma step_ok_addStage_dependsOn: "step_ok st (addStage_dependsOn sg s ds st)"
proof (induction ds arbitrary: st)
  case Nil
  then show ?case by (simp add: step_ok_refl)
next
  case (Cons d ds)
  have "step_ok st (case sg s of None \<Rightarrow> st | Some g \<Rightarrow> dependOn g (definedNodes [sg d]) st)"
    by (cases "sg s") (simp_all add: step_ok_refl step_ok_dependOn)
  then show ?case using step_ok_trans Cons by simp
qed

lemma step_ok_addStage_order: "step_ok st (addStage_order W sg ss st)"
proof (induction ss arbitrary: st)
  case Nil
  then show ?case by (simp add: step_ok_refl)
next
  case (Cons s ss)
  show ?case using step_ok_trans[OF step_ok_addStage_dependsOn Cons] by simp
qed

lemma next_ref_addStage_dependsOn [simp]: "next_ref (addStage_dependsOn sg s ds st) = next_ref st"
  by (induction ds arbitrary: st) (auto split: option.splits)

lemma next_ref_addStage_order [simp]: "next_ref (addStage_order W sg ss st) = next_ref st"
  by (induction ss arbitrary: st) auto

lemma addStage_dependsOn_mono:
  "m \<in> set (dependencies (heap st n))
   \<Longrightarrow> m \<in> set (dependencies (heap (addStage_dependsOn sg s ds st) n))"
  by (induction ds arbitrary: st) (auto simp: dependencies_dependOn split: option.splits)

lemma addStage_order_mono:
  "m \<in> set (dependencies (heap st n))
   \<Longrightarrow> m \<in> set (dependencies (heap (addStage_order W sg ss st) n))"
  by (induction ss arbitrary: st) (auto simp: addStage_dependsOn_mono)

lemma addStage_dependsOn_edge:
  "sg s = Some g2 \<Longrightarrow> d \<in> set ds \<Longrightarrow> sg d = Some g1
   \<Longrightarrow> g1 \<in> set (dependencies (heap (addStage_dependsOn sg s ds st) g2))"
proof (induction ds arbitrary: st)
  case Nil
  then show ?case by simp
next
  case (Cons x ds)
  show ?case
  proof (cases "d = x")
    case True
    have "g1 \<in> set (dependencies (heap (dependOn g2 (definedNodes [sg x]) st) g2))"
      using True Cons.prems by (simp add: dependencies_dependOn definedNodes_def List.map_filter_def)
    then show ?thesis using Cons.prems(1) by (simp add: addStage_dependsOn_mono)
  next
    case False
    then show ?thesis using Cons by simp
  qed
qed

lemma addStage_order_edge:
  "s2 \<in> set ss \<Longrightarrow> sg s2 = Some g2 \<Longrightarrow> s1 \<in> set (dependsOnStacks (stackDeployments W s2))
   \<Longrightarrow> sg s1 = Some g1 \<Longrightarrow> g1 \<in> set (dependencies (heap (addStage_order W sg ss st) g2))"
proof (induction ss arbitrary: st)
  case Nil
  then show ?case by simp
next
  case (Cons x ss)
  show ?case
  proof (cases "s2 = x")
    case True
    then show ?thesis
      using Cons.prems addStage_dependsOn_edge[of sg s2 g2 s1 _ g1 st]
      by (simp add: addStage_order_mono)
  next
    case False
    then show ?thesis using Cons by simp
  qed
qed

lemma addStage_Inr:
  assumes r: "addStage fuel W stage st = Inr (g, st')"
  shows "step_ok st st' \<and> g = next_ref st \<and> g < next_ref st' \<and> (\<exists>sg. stage_wired W stage sg st')"
proof -
  from r obtain st1 sg st2 where
    1: "Graph_of (stageName stage) (Some Group) [] st = Inr (g, st1)"
    and 2: "addStage_stacks fuel W g (stacks stage) Map.empty st1 = Inr (sg, st2)"
    and 3: "addPrePost fuel W (stage_pre stage) (stage_post stage) g
              (addStage_order W sg (stacks stage) st2) = Inr st'"
    by (auto simp: addStage_def split: sum.splits)
  let ?s3 = "addStage_order W sg (stacks stage) st2"
  note G = Graph_of_Inr[OF 1]
  have e: "sg_ok Map.empty st1" by (simp add: sg_ok_def)
  note S = addStage_stacks_Inr[OF 2 e]
  have o: "step_ok st2 ?s3" by (rule step_ok_addStage_order)
  have p: "step_ok ?s3 st'" using step_ok_addPrePost[OF 3] .
  have all: "step_ok st st'"
    using step_ok_trans[OF conjunct1[OF conjunct2[OF conjunct2[OF G]]]
        step_ok_trans[OF conjunct1[OF S] step_ok_trans[OF o p]]] .
  have gl: "g < next_ref st'"
    using G step_ok_next[OF conjunct1[OF S]] step_ok_next[OF o] step_ok_next[OF p] by simp
  have ok3: "sg_ok sg ?s3" using sg_ok_step[OF o] S by blast
  have ok': "sg_ok sg st'" using sg_ok_step[OF p ok3] .
  have dom: "\<forall>s\<in>set (stacks stage). sg s \<noteq> None" using S by blast
  have edges: "g1 \<in> set (dependencies (heap st' g2))"
    if "s2 \<in> set (stacks stage)" "s1 \<in> set (dependsOnStacks (stackDeployments W s2))"
      "sg s1 = Some g1" "sg s2 = Some g2" for s1 s2 g1 g2
  proof -
    have "g1 \<in> set (dependencies (heap ?s3 g2))"
      using addStage_order_edge[OF that(1) that(4) that(2) that(3)] .
    moreover have "g2 < next_ref ?s3" using ok3 that(4) by (simp add: sg_ok_def)
    ultimately show ?thesis using step_ok_deps[OF p] by blast
  qed
  have "stage_wired W stage sg st'"
    unfolding stage_wired_def using ok' dom edges by blast
  then show ?thesis using all G gl by blast
qed

lemma addStage_error:
  assumes ok: "assets_ok st" and r: "addStage fuel W stage st = Inl e"
  shows "plain_error e"
proof (cases "Graph_of (stageName stage) (Some Group) [] st")
  case (Inl e')
  then have "e = e'" using r by (simp add: addStage_def)
  then show ?thesis using Graph_of_error[OF Inl] by simp
next
  case (Inr x)
  obtain g st1 where x: "x = (g, st1)" by (cases x)
  have ok1: "assets_ok st1" using Graph_of_Inr[OF Inr[unfolded x]] ok step_ok_assets by blast
  show ?thesis
  proof (cases "addStage_stacks fuel W g (stacks stage) Map.empty st1")
    case (Inl e')
    then have "e = e'" using r Inr x by (simp add: addStage_def)
    then show ?thesis using addStage_stacks_error[OF ok1 Inl] by simp
  next
    case (Inr y)
    obtain sg st2 where y: "y = (sg, st2)" by (cases y)
    have "addPrePost fuel W (stage_pre stage) (stage_post stage) g
              (addStage_order W sg (stacks stage) st2) = Inl e"
      using r \<open>Graph_of (stageName stage) (Some Group) [] st = Inr x\<close> x Inr y
      by (auto simp: addStage_def split: sum.splits)
    then show ?thesis by (rule addPrePost_error)
  qed
qed

text \<open>
  What stage compilation does build: for all stacks S1, S2 of the stage where S2
  declares a dependency on S1, wherever they stand in the stage's list, there is a stack
  group for each, the group of S2 depends on the group of S1, the Prepare node of S2 is
  a child of the group of S2 and the Execute node of S1 a child of the group of S1. The
  edges are added by the second loop, over the complete table of stack groups.
\<close>

lemma stack_groups_wired:
  assumes r: "addStage fuel W stage st = Inr (g, st')"
    and s1: "s1 \<in> set (stacks stage)" and s2: "s2 \<in> set (stacks stage)"
    and dep: "s1 \<in> set (dependsOnStacks (stackDeployments W s2))"
  shows "\<exists>g1 g2 prepare2 deploy1.
     data (heap st' g1) = Some (StackGroup s1) \<and> data (heap st' g2) = Some (StackGroup s2) \<and>
     g1 \<in> set (dependencies (heap st' g2)) \<and>
     prepare2 \<in> set (children (heap st' g2)) \<and> data (heap st' prepare2) = Some (Prepare s2) \<and>
     deploy1 \<in> set (children (heap st' g1)) \<and> data (heap st' deploy1) = Some (Execute s1)"
proof -
  from addStage_Inr[OF r] obtain sg where w: "stage_wired W stage sg st'" by blast
  from w s1 s2 obtain g1 g2 where g: "sg s1 = Some g1" "sg s2 = Some g2"
    unfolding stage_wired_def by fastforce
  have e: "g1 \<in> set (dependencies (heap st' g2))"
    using w s2 dep g unfolding stage_wired_def by blast
  have ok: "sg_ok sg st'" using w by (simp add: stage_wired_def)
  from ok g(1) obtain d1 where d1: "data (heap st' g1) = Some (StackGroup s1)"
    "d1 \<in> set (children (heap st' g1))" "data (heap st' d1) = Some (Execute s1)"
    unfolding sg_ok_def by blast
  from ok g(2) obtain p2 where p2: "data (heap st' g2) = Some (StackGroup s2)"
    "p2 \<in> set (children (heap st' g2))" "data (heap st' p2) = Some (Prepare s2)"
    unfolding sg_ok_def by blast
  show ?thesis using e d1 p2 by blast
qed

lemmas compile_eval = synth_output_def plain_step_def
  construct_def construct_prepare_def construct_waves_def addBuildStep_def topLevelGraph_def
  tryGetChild_def GraphNode_of_def Graph_of_def dependOn_def definedNodes_def
  List.map_filter_def initial_def markBuildStep_def cloudAssemblyOf_def addWave_def
  addStage_def addPrePost_def publishAsset_def sequentialWaves_def string_of_nat.simps
  addAndRecurse.simps

text \<open>
  C6 does not hold of the code. \<^verbatim>\<open>addStage\<close> makes the stack groups and the edges between
  them, but never adds a stack group to the stage's graph (there is no
  \<^verbatim>\<open>retGraph.add(stackGraph)\<close>), and \<^verbatim>\<open>addWave\<close> never adds the graph it returns to the
  root. Compiling the blueprint whose stage lists Stack2, which depends on Stack1,
  before Stack1 leaves the group of Stack2 (node 4) depending on the group of Stack1
  (node 7), each with its Prepare and Deploy nodes, but the stage's graph ``Prod'' (node
  3) has no children and the root's tree is the ``Build'' group with the synth node:
  no Prepare or Deploy node is in the compiled graph, whose order orders none of them.
\<close>

theorem stack_groups_not_in_stage_graph:
  "(case construct 1 ordered_objects ordered_blueprint \<lparr>selfMutation = None\<rparr> of
      Inl e \<Rightarrow> False
    | Inr st \<Rightarrow>
        graph st = 0 \<and> next_ref st = 10 \<and>
        map (\<lambda>n. node_id (heap st n)) [0, 1, 2, 3, 4, 5, 6, 7, 8, 9]
          = ['''', ''Build'', ''Synth'', ''Prod'', ''Stack2'', ''Prepare'', ''Deploy'',
             ''Stack1'', ''Prepare'', ''Deploy''] \<and>
        map (\<lambda>n. data (heap st n)) [3, 4, 5, 6, 7, 8, 9]
          = [Some Group, Some (StackGroup 1), Some (Prepare 1), Some (Execute 1),
             Some (StackGroup 0), Some (Prepare 0), Some (Execute 0)] \<and>
        map (\<lambda>n. children (heap st n)) [0, 1, 2, 3, 4, 5, 6, 7, 8, 9]
          = [[1], [2], [], [], [5, 6], [], [], [8, 9], [], []] \<and>
        map (\<lambda>n. dependencies (heap st n)) [3, 4, 5, 6, 7, 8, 9]
          = [[2], [7], [2], [5], [], [2], [8]])"
  by (simp add: ordered_objects_def ordered_blueprint_def ordered_stage_def compile_eval
      eval_nat_numeral)

section \<open>Waves and the constructor\<close>

text \<open>
  The waves are compiled in order into one graph each, all of them distinct nodes; the
  sequential pass then touches the dependencies of these nodes only.
\<close>

lemma addStages_Inr:
  "addStages fuel W ss st = Inr (gs, st') \<Longrightarrow>
     step_ok st st' \<and> (\<forall>g\<in>set gs. next_ref st \<le> g \<and> g < next_ref st')"
proof (induction ss arbitrary: st gs)
  case Nil
  then show ?case by (auto simp: step_ok_refl)
next
  case (Cons s ss)
  from Cons.prems obtain g st1 gs' where
    1: "addStage fuel W s st = Inr (g, st1)"
    and 2: "addStages fuel W ss st1 = Inr (gs', st')" and gs: "gs = g # gs'"
    by (auto split: sum.splits)
  note A = addStage_Inr[OF 1]
  note B = Cons.IH[OF 2]
  have le1: "next_ref st \<le> next_ref st1" using A step_ok_next by blast
  have le2: "next_ref st1 \<le> next_ref st'" using B step_ok_next by blast
  have "step_ok st st'" using step_ok_trans[of st st1 st'] A B by blast
  moreover have "\<forall>x\<in>set gs. next_ref st \<le> x \<and> x < next_ref st'"
    using A B le1 le2 gs by fastforce
  ultimately show ?case by blast
qed

lemma addStages_error:
  "assets_ok st \<Longrightarrow> addStages fuel W ss st = Inl e \<Longrightarrow> plain_error e"
proof (induction ss arbitrary: st)
  case Nil
  then show ?case by simp
next
  case (Cons s ss)
  show ?case
  proof (cases "addStage fuel W s st")
    case (Inl e')
    then have "e = e'" using Cons.prems(2) by simp
    then show ?thesis using addStage_error[OF Cons.prems(1) Inl] by simp
  next
    case (Inr x)
    obtain g st1 where x: "x = (g, st1)" by (cases x)
    have ok1: "assets_ok st1" using addStage_Inr[OF Inr[unfolded x]] Cons.prems(1) step_ok_assets by blast
    have "addStages fuel W ss st1 = Inl e"
      using Cons.prems(2) Inr x by (auto split: sum.splits)
    then show ?thesis using Cons.IH[OF ok1] by blast
  qed
qed

lemma addWave_eq:
  "addWave fuel W wave st =
     (case wave_graph fuel W wave st of
        Inl e \<Rightarrow> Inl e
      | Inr (retGraph, st2) \<Rightarrow>
          (case addPrePost fuel W (wave_pre wave) (wave_post wave) retGraph st2 of
             Inl e \<Rightarrow> Inl e
           | Inr st3 \<Rightarrow>
               Inr (retGraph, dependOn retGraph (definedNodes [lastPreparationNode st3]) st3)))"
  unfolding addWave_def wave_graph_def by (rule refl)

lemma wave_graph_cases:
  "(\<exists>stage. stages wave = [stage] \<and> wave_graph fuel W wave st = addStage fuel W stage st) \<or>
   wave_graph fuel W wave st =
     (case addStages fuel W (stages wave) st of
        Inl e \<Rightarrow> Inl e
      | Inr (gs, st1) \<Rightarrow> Graph_of (wave_id wave) (Some Group) gs st1)"
  unfolding wave_graph_def by (auto split: list.splits)

lemma wave_graph_Inr:
  assumes r: "wave_graph fuel W wave st = Inr (g, st')"
  shows "step_ok st st' \<and> next_ref st \<le> g \<and> g < next_ref st'"
  using wave_graph_cases[of wave fuel W st]
proof
  assume "\<exists>stage. stages wave = [stage] \<and> wave_graph fuel W wave st = addStage fuel W stage st"
  then obtain stage where "addStage fuel W stage st = Inr (g, st')" using r by auto
  then show ?thesis using addStage_Inr by fastforce
next
  assume "wave_graph fuel W wave st =
     (case addStages fuel W (stages wave) st of
        Inl e \<Rightarrow> Inl e
      | Inr (gs, st1) \<Rightarrow> Graph_of (wave_id wave) (Some Group) gs st1)"
  then obtain gs st1 where 1: "addStages fuel W (stages wave) st = Inr (gs, st1)"
    and 2: "Graph_of (wave_id wave) (Some Group) gs st1 = Inr (g, st')"
    using r by (auto split: sum.splits)
  note A = addStages_Inr[OF 1]
  note B = Graph_of_Inr[OF 2]
  have "step_ok st st'" using step_ok_trans[of st st1 st'] A B by blast
  moreover have "next_ref st \<le> g" using A B step_ok_next by fastforce
  ultimately show ?thesis using B by blast
qed

lemma wave_graph_error:
  assumes ok: "assets_ok st" and r: "wave_graph fuel W wave st = Inl e"
  shows "plain_error e"
  using wave_graph_cases[of wave fuel W st]
proof
  assume "\<exists>stage. stages wave = [stage] \<and> wave_graph fuel W wave st = addStage fuel W stage st"
  then show ?thesis using r addStage_error[OF ok] by auto
next
  assume a: "wave_graph fuel W wave st =
     (case addStages fuel W (stages wave) st of
        Inl e \<Rightarrow> Inl e
      | Inr (gs, st1) \<Rightarrow> Graph_of (wave_id wave) (Some Group) gs st1)"
  show ?thesis
  proof (cases "addStages fuel W (stages wave) st")
    case (Inl e')
    then show ?thesis using a r addStages_error[OF ok Inl] by simp
  next
    case (Inr x)
    then show ?thesis using a r Graph_of_error by (auto split: prod.splits)
  qed
qed

lemma addWave_Inr:
  assumes r: "addWave fuel W wave st = Inr (g, st')"
  shows "step_ok st st' \<and> next_ref st \<le> g \<and> g < next_ref st'"
proof -
  from r obtain st2 st3 where
    1: "wave_graph fuel W wave st = Inr (g, st2)"
    and 2: "addPrePost fuel W (wave_pre wave) (wave_post wave) g st2 = Inr st3"
    and 3: "st' = dependOn g (definedNodes [lastPreparationNode st3]) st3"
    unfolding addWave_eq by (auto split: sum.splits)
  note A = wave_graph_Inr[OF 1]
  have B: "step_ok st2 st3" using step_ok_addPrePost[OF 2] .
  have C: "step_ok st3 st'" unfolding 3 by (rule step_ok_dependOn)
  have "step_ok st st'" using step_ok_trans[OF conjunct1[OF A] step_ok_trans[OF B C]] .
  moreover have "g < next_ref st'" using A step_ok_next[OF B] step_ok_next[OF C] by simp
  ultimately show ?thesis using A by blast
qed

lemma addWave_error:
  assumes ok: "assets_ok st" and r: "addWave fuel W wave st = Inl e"
  shows "plain_error e"
proof (cases "wave_graph fuel W wave st")
  case (Inl e')
  then have "e = e'" using r unfolding addWave_eq by simp
  then show ?thesis using wave_graph_error[OF ok Inl] by simp
next
  case (Inr x)
  obtain g st2 where x: "x = (g, st2)" by (cases x)
  have "addPrePost fuel W (wave_pre wave) (wave_post wave) g st2 = Inl e"
    using r Inr x unfolding addWave_eq by (auto split: sum.splits)
  then show ?thesis by (rule addPrePost_error)
qed

lemma addWaves_Inr:
  "addWaves fuel W wl st = Inr (gs, st') \<Longrightarrow>
     step_ok st st' \<and> length gs = length wl \<and> distinct gs \<and>
     (\<forall>g\<in>set gs. next_ref st \<le> g \<and> g < next_ref st')"
proof (induction wl arbitrary: st gs)
  case Nil
  then show ?case by (auto simp: step_ok_refl)
next
  case (Cons w wl)
  from Cons.prems obtain g st1 gs' where
    1: "addWave fuel W w st = Inr (g, st1)"
    and 2: "addWaves fuel W wl st1 = Inr (gs', st')" and gs: "gs = g # gs'"
    by (auto split: sum.splits)
  note A = addWave_Inr[OF 1]
  note B = Cons.IH[OF 2]
  have le1: "next_ref st \<le> next_ref st1" using A step_ok_next by blast
  have le2: "next_ref st1 \<le> next_ref st'" using B step_ok_next by blast
  have "step_ok st st'" using step_ok_trans[of st st1 st'] A B by blast
  moreover have "\<forall>x\<in>set gs. next_ref st \<le> x \<and> x < next_ref st'"
    using A B le1 le2 gs by fastforce
  moreover have "g \<notin> set gs'" using A B by fastforce
  ultimately show ?case using B gs by simp
qed

lemma addWaves_error:
  "assets_ok st \<Longrightarrow> addWaves fuel W wl st = Inl e \<Longrightarrow> plain_error e"
proof (induction wl arbitrary: st)
  case Nil
  then show ?case by simp
next
  case (Cons w wl)
  show ?case
  proof (cases "addWave fuel W w st")
    case (Inl e')
    then have "e = e'" using Cons.prems(2) by simp
    then show ?thesis using addWave_error[OF Cons.prems(1) Inl] by simp
  next
    case (Inr x)
    obtain g st1 where x: "x = (g, st1)" by (cases x)
    have ok1: "assets_ok st1" using addWave_Inr[OF Inr[unfolded x]] Cons.prems(1) step_ok_assets by blast
    have "addWaves fuel W wl st1 = Inl e"
      using Cons.prems(2) Inr x by (auto split: sum.splits)
    then show ?thesis using Cons.IH[OF ok1] by blast
  qed
qed

lemma fold_dependOn_heap:
  "heap (fold (\<lambda>i. dependOn (ws ! i) [ws ! (i - 1)]) js st) n =
     (heap st n)\<lparr>dependencies := dependencies (heap st n)
        @ concat (map (\<lambda>i. if ws ! i = n then [ws ! (i - 1)] else []) js)\<rparr>"
  by (induction js arbitrary: st) (auto simp: dependOn_def)

lemma concat_single_upt:
  "concat (map (\<lambda>i. if i = j then [x] else []) [a..<b]) = (if a \<le> j \<and> j < b then [x] else [])"
  by (induction b) auto

lemma find_eq_upt:
  "List.find (\<lambda>k. k = j) [a..<b] = (if a \<le> j \<and> j < b then Some j else None)"
  by (induction b) (auto simp: find_append_eq)

lemma sequentialWaves_heap:
  assumes d: "distinct ws"
  shows "heap (sequentialWaves ws st) n =
     (heap st n)\<lparr>dependencies := dependencies (heap st n)
        @ (case List.find (\<lambda>i. ws ! i = n) [1..<length ws] of None \<Rightarrow> [] | Some i \<Rightarrow> [ws ! (i - 1)])\<rparr>"
proof -
  have "concat (map (\<lambda>i. if ws ! i = n then [ws ! (i - 1)] else []) [1..<length ws])
      = (case List.find (\<lambda>i. ws ! i = n) [1..<length ws] of None \<Rightarrow> [] | Some i \<Rightarrow> [ws ! (i - 1)])"
  proof (cases "\<exists>j. 1 \<le> j \<and> j < length ws \<and> ws ! j = n")
    case True
    then obtain j where j: "1 \<le> j" "j < length ws" "ws ! j = n" by blast
    have eq: "\<And>i. i \<in> set [1..<length ws] \<Longrightarrow> (ws ! i = n) = (i = j)"
      using d j nth_eq_iff_index_eq by fastforce
    have m: "map (\<lambda>i. if ws ! i = n then [ws ! (i - 1)] else []) [1..<length ws]
        = map (\<lambda>i. if i = j then [ws ! (j - 1)] else []) [1..<length ws]"
      by (rule map_cong) (use eq in auto)
    have c: "concat (map (\<lambda>i. if ws ! i = n then [ws ! (i - 1)] else []) [1..<length ws])
        = [ws ! (j - 1)]"
      unfolding m concat_single_upt using j by simp
    have "List.find (\<lambda>i. ws ! i = n) [1..<length ws] = List.find (\<lambda>i. i = j) [1..<length ws]"
      by (rule find_cong_set) (use eq in auto)
    moreover have "List.find (\<lambda>i. i = j) [1..<length ws] = Some j"
      using j by (simp add: find_eq_upt)
    ultimately show ?thesis unfolding c by simp
  next
    case False
    then have "\<And>i. i \<in> set [1..<length ws] \<Longrightarrow> ws ! i \<noteq> n" by auto
    then have m: "map (\<lambda>i. if ws ! i = n then [ws ! (i - 1)] else []) [1..<length ws]
        = map (\<lambda>i. []) [1..<length ws]"
      and f: "List.find (\<lambda>i. ws ! i = n) [1..<length ws] = None"
      by (auto simp: find_None_iff)
    show ?thesis unfolding m f by simp
  qed
  then show ?thesis unfolding sequentialWaves_def fold_dependOn_heap by simp
qed

lemma sequentialWaves_wave:
  assumes d: "distinct ws" and i: "i < length ws"
  shows "dependencies (heap (sequentialWaves ws st) (ws ! i))
     = dependencies (heap st (ws ! i)) @ (if i = 0 then [] else [ws ! (i - 1)])"
proof -
  have eq: "\<And>k. k \<in> set [1..<length ws] \<Longrightarrow> (ws ! k = ws ! i) = (k = i)"
    using d i nth_eq_iff_index_eq by fastforce
  have "List.find (\<lambda>k. ws ! k = ws ! i) [1..<length ws] = List.find (\<lambda>k. k = i) [1..<length ws]"
    by (rule find_cong_set) (use eq in auto)
  moreover have "List.find (\<lambda>k. k = i) [1..<length ws] = (if i = 0 then None else Some i)"
    using i by (auto simp: find_eq_upt)
  ultimately show ?thesis by (simp add: sequentialWaves_heap[OF d])
qed

lemma sequentialWaves_other:
  assumes d: "distinct ws" and n: "n \<notin> set ws"
  shows "heap (sequentialWaves ws st) n = heap st n"
proof -
  have "List.find (\<lambda>i. ws ! i = n) [1..<length ws] = None"
    using n by (auto simp: find_None_iff)
  then show ?thesis by (simp add: sequentialWaves_heap[OF d])
qed

lemma sequentialWaves_fields:
  "next_ref (sequentialWaves ws st) = next_ref st \<and>
   assetNodes (sequentialWaves ws st) = assetNodes st \<and>
   cloudAssemblyFileSet (sequentialWaves ws st) = cloudAssemblyFileSet st"
proof -
  have "next_ref (fold (\<lambda>i. dependOn (ws ! i) [ws ! (i - 1)]) js st) = next_ref st \<and>
   assetNodes (fold (\<lambda>i. dependOn (ws ! i) [ws ! (i - 1)]) js st) = assetNodes st \<and>
   cloudAssemblyFileSet (fold (\<lambda>i. dependOn (ws ! i) [ws ! (i - 1)]) js st) = cloudAssemblyFileSet st" for js
    by (induction js arbitrary: st) (auto simp: dependOn_def)
  then show ?thesis by (simp add: sequentialWaves_def)
qed

lemma sequentialWaves_assets: "assets_ok st \<Longrightarrow> assets_ok (sequentialWaves ws st)"
proof -
  have "data (heap (sequentialWaves ws st) n) = data (heap st n)" for n
    unfolding sequentialWaves_def fold_dependOn_heap by simp
  then show "assets_ok st \<Longrightarrow> assets_ok (sequentialWaves ws st)"
    using sequentialWaves_fields[of ws st] by (simp add: assets_ok_def)
qed

lemma assets_ok_initial: "assets_ok initial"
  by (simp add: assets_ok_def initial_def)

lemma assets_ok_cong:
  "heap st' = heap st \<Longrightarrow> assetNodes st' = assetNodes st \<Longrightarrow> next_ref st' = next_ref st
   \<Longrightarrow> assets_ok st' = assets_ok st"
  by (simp add: assets_ok_def)

lemma step_ok_markBuildStep: "step_ok st (markBuildStep n st)"
proof -
  have h: "next_ref (markBuildStep n st) = next_ref st \<and> assetNodes (markBuildStep n st) = assetNodes st \<and>
    cloudAssemblyFileSet (markBuildStep n st) = cloudAssemblyFileSet st \<and>
    (\<forall>x. ann_kind (data (heap (markBuildStep n st) x)) = ann_kind (data (heap st x)) \<and>
       dependencies (heap (markBuildStep n st) x) = dependencies (heap st x) \<and>
       children (heap (markBuildStep n st) x) = children (heap st x))"
    by (auto simp: markBuildStep_def split: option.splits GraphAnnotation.splits)
  have "assets_ok (markBuildStep n st)" if "assets_ok st"
    by (rule assets_ok_kind[OF that]) (simp_all add: h)
  then show ?thesis using h by (simp add: step_ok_def)
qed

lemma step_ok_fields:
  "step_ok st (st\<lparr>synthNode := a\<rparr>)" "step_ok st (st\<lparr>lastPreparationNode := b\<rparr>)"
  "step_ok st (st\<lparr>selfMutateNode := c\<rparr>)"
  by (simp_all add: step_ok_def assets_ok_def)

lemma addBuildStep_Inr: "addBuildStep fuel W s st = Inr (n, st') \<Longrightarrow> step_ok st st'"
proof -
  assume "addBuildStep fuel W s st = Inr (n, st')"
  then obtain b st1 where 1: "topLevelGraph ''Build'' st = Inr (b, st1)"
    and 2: "addAndRecurse fuel W s b st1 = Inr (n, st')"
    by (auto simp: addBuildStep_def split: sum.splits)
  show ?thesis
    using step_ok_trans[OF grows_step_ok[OF frame_grows[OF frame_topLevelGraph[OF 1]]]
        step_ok_addAndRecurse[OF 2]] .
qed

lemma addBuildStep_error: "addBuildStep fuel W s st = Inl e \<Longrightarrow> plain_error e"
  by (auto simp: addBuildStep_def plain_error_def split: sum.splits
      dest: topLevelGraph_error addAndRecurse_error)

lemma addSelfMutation_Inr: "addSelfMutation st = Inr st' \<Longrightarrow> step_ok st st'"
proof -
  assume r: "addSelfMutation st = Inr st'"
  then obtain stage st1 st2 where
    1: "Graph_of ''UpdatePipeline'' (Some Group) [] st = Inr (stage, st1)"
    and 2: "Graph_add (graph st1) [stage] st1 = Inr st2"
    by (auto simp: addSelfMutation_def split: sum.splits simp del: Graph_add.simps)
  obtain n st3 where 3: "GraphNode_of ''SelfMutate'' (Some SelfUpdate) st2 = (n, st3)" by fastforce
  from r 1 2 3 obtain st4 where
    4: "Graph_add stage [n] (st3\<lparr>selfMutateNode := Some n\<rparr>) = Inr st4"
    and 5: "st' = (dependOn n (definedNodes [synthNode st4]) st4)\<lparr>lastPreparationNode := Some n\<rparr>"
    by (auto simp: addSelfMutation_def split: sum.splits simp del: Graph_add.simps)
  have a: "step_ok st st1" using Graph_of_Inr[OF 1] by simp
  have b: "step_ok st1 st2" using step_ok_Graph_add[OF 2] .
  have c: "step_ok st2 st3" using step_ok_GraphNode_of[OF 3] .
  have d: "step_ok st3 (st3\<lparr>selfMutateNode := Some n\<rparr>)" by (rule step_ok_fields)
  have e: "step_ok (st3\<lparr>selfMutateNode := Some n\<rparr>) st4" using step_ok_Graph_add[OF 4] .
  have f: "step_ok st4 (dependOn n (definedNodes [synthNode st4]) st4)" by (rule step_ok_dependOn)
  have g: "step_ok (dependOn n (definedNodes [synthNode st4]) st4) st'"
    unfolding 5 by (rule step_ok_fields)
  show ?thesis
    using step_ok_trans[OF a step_ok_trans[OF b step_ok_trans[OF c step_ok_trans[OF d
            step_ok_trans[OF e step_ok_trans[OF f g]]]]]] .
qed

lemma addSelfMutation_error: "addSelfMutation st = Inl e \<Longrightarrow> plain_error e"
  by (auto simp: addSelfMutation_def plain_error_def split: sum.splits prod.splits
      dest: Graph_of_error Graph_add_error simp del: Graph_add.simps)

lemma construct_prepare_eq:
  "construct_prepare fuel W bp props =
     (case addBuildStep fuel W (synthStep bp) initial of
        Inl e \<Rightarrow> Inl e
      | Inr (sn, st1) \<Rightarrow>
          (case cloudAssemblyOf (steps W (synthStep bp)) of
             None \<Rightarrow> Inl (MissingOutput (synthStep bp))
           | Some ca \<Rightarrow>
               (if selfMutation props = Some True then addSelfMutation (prepared sn ca st1)
                else Inr (prepared sn ca st1))))"
  by (auto simp: construct_prepare_def prepared_def Let_def split: sum.splits prod.splits option.splits)

lemma prepared_ok:
  assumes "step_ok initial st1"
  shows "assets_ok (prepared sn ca st1) \<and> cloudAssemblyFileSet (prepared sn ca st1) = Some ca"
proof -
  let ?s2 = "(markBuildStep sn (st1\<lparr>synthNode := Some sn\<rparr>))\<lparr>lastPreparationNode := Some sn\<rparr>"
  have "step_ok initial ?s2"
    using step_ok_trans[OF assms step_ok_trans[OF step_ok_fields(1)
          step_ok_trans[OF step_ok_markBuildStep step_ok_fields(2)]]] .
  then have "assets_ok ?s2" using assets_ok_initial step_ok_assets by blast
  moreover have "assets_ok (prepared sn ca st1) = assets_ok ?s2"
    unfolding prepared_def by (rule assets_ok_cong) simp_all
  ultimately show ?thesis by (simp add: prepared_def)
qed

lemma construct_prepare_Inr:
  assumes r: "construct_prepare fuel W bp props = Inr st"
  shows "assets_ok st \<and> (\<exists>ca. cloudAssemblyOf (steps W (synthStep bp)) = Some ca \<and>
           cloudAssemblyFileSet st = Some ca)"
proof -
  from r obtain sn st1 ca where
    1: "addBuildStep fuel W (synthStep bp) initial = Inr (sn, st1)"
    and 2: "cloudAssemblyOf (steps W (synthStep bp)) = Some ca"
    and 3: "(if selfMutation props = Some True then addSelfMutation (prepared sn ca st1)
                else Inr (prepared sn ca st1)) = Inr st"
    unfolding construct_prepare_eq by (auto split: sum.splits option.splits)
  note P = prepared_ok[OF addBuildStep_Inr[OF 1], of sn ca]
  have "step_ok (prepared sn ca st1) st"
    using 3 addSelfMutation_Inr by (auto simp: step_ok_refl split: if_splits)
  then have "assets_ok st \<and> cloudAssemblyFileSet st = Some ca"
    using P by (simp add: step_ok_def)
  then show ?thesis using 2 by simp
qed

lemma construct_prepare_error:
  assumes r: "construct_prepare fuel W bp props = Inl e"
  shows "plain_error e \<or>
    (e = MissingOutput (synthStep bp) \<and> cloudAssemblyOf (steps W (synthStep bp)) = None)"
proof (cases "addBuildStep fuel W (synthStep bp) initial")
  case (Inl e')
  then have "e = e'" using r unfolding construct_prepare_eq by simp
  then show ?thesis using addBuildStep_error[OF Inl] by simp
next
  case (Inr x)
  obtain sn st1 where x: "x = (sn, st1)" by (cases x)
  show ?thesis
  proof (cases "cloudAssemblyOf (steps W (synthStep bp))")
    case None
    then show ?thesis using r Inr x unfolding construct_prepare_eq by simp
  next
    case (Some ca)
    then have "addSelfMutation (prepared sn ca st1) = Inl e"
      using r Inr x unfolding construct_prepare_eq by (auto split: if_splits)
    then show ?thesis using addSelfMutation_error by blast
  qed
qed

lemma construct_waves_Inr:
  assumes r: "construct_waves fuel W wl st = Inr (ws, st')"
  shows "\<exists>st1. addWaves fuel W wl st = Inr (ws, st1) \<and> st' = sequentialWaves ws st1 \<and>
     length ws = length wl \<and> distinct ws \<and> step_ok st st1"
  using r addWaves_Inr by (fastforce simp: construct_waves_def split: sum.splits)

lemma construct_waves_error:
  "assets_ok st \<Longrightarrow> construct_waves fuel W wl st = Inl e \<Longrightarrow> plain_error e"
  using addWaves_error by (auto simp: construct_waves_def split: sum.splits)

lemma construct_Inr:
  assumes r: "construct fuel W bp props = Inr st'"
  shows "\<exists>st0 ws st1. construct_prepare fuel W bp props = Inr st0 \<and>
     addWaves fuel W (waves bp) st0 = Inr (ws, st1) \<and> st' = sequentialWaves ws st1 \<and>
     length ws = length (waves bp) \<and> distinct ws \<and> step_ok st0 st1"
proof -
  from r obtain st0 ws where 1: "construct_prepare fuel W bp props = Inr st0"
    and 2: "construct_waves fuel W (waves bp) st0 = Inr (ws, st')"
    by (auto simp: construct_def split: sum.splits)
  show ?thesis using 1 construct_waves_Inr[OF 2] by blast
qed

lemma construct_error:
  assumes r: "construct fuel W bp props = Inl e"
  shows "plain_error e \<or>
    (e = MissingOutput (synthStep bp) \<and> cloudAssemblyOf (steps W (synthStep bp)) = None)"
proof (cases "construct_prepare fuel W bp props")
  case (Inl e')
  then have "e = e'" using r by (simp add: construct_def)
  then show ?thesis using construct_prepare_error[OF Inl] by simp
next
  case (Inr st0)
  have ok: "assets_ok st0" using construct_prepare_Inr[OF Inr] by simp
  have "construct_waves fuel W (waves bp) st0 = Inl e"
    using r Inr by (auto simp: construct_def split: sum.splits)
  then show ?thesis using construct_waves_error[OF ok] by blast
qed

text \<open>
  What the constructor does build: a construction that returns has made one graph per
  wave, in order, and then for every \<open>i \<ge> 1\<close> made the graph of wave \<open>i\<close> depend on the
  graph of wave \<open>i - 1\<close>. The sequential pass appends exactly that one node to the
  dependencies of wave \<open>i\<close>, nothing to wave 0, and leaves every other node as the wave
  compilation built it.
\<close>

lemma waves_chained:
  assumes r: "construct fuel W bp props = Inr st'"
  shows "\<exists>st0 ws st1. construct_prepare fuel W bp props = Inr st0 \<and>
     addWaves fuel W (waves bp) st0 = Inr (ws, st1) \<and> length ws = length (waves bp) \<and>
     (\<forall>i. 1 \<le> i \<and> i < length ws \<longrightarrow> ws ! (i - 1) \<in> set (dependencies (heap st' (ws ! i)))) \<and>
     (\<forall>i<length ws. dependencies (heap st' (ws ! i))
        = dependencies (heap st1 (ws ! i)) @ (if i = 0 then [] else [ws ! (i - 1)])) \<and>
     (\<forall>n. n \<notin> set ws \<longrightarrow> heap st' n = heap st1 n)"
proof -
  from construct_Inr[OF r] obtain st0 ws st1 where
    1: "construct_prepare fuel W bp props = Inr st0"
    and 2: "addWaves fuel W (waves bp) st0 = Inr (ws, st1)"
    and 3: "st' = sequentialWaves ws st1" and 4: "length ws = length (waves bp)"
    and 5: "distinct ws"
    by blast
  have a: "\<forall>i<length ws. dependencies (heap st' (ws ! i))
        = dependencies (heap st1 (ws ! i)) @ (if i = 0 then [] else [ws ! (i - 1)])"
    unfolding 3 using sequentialWaves_wave[OF 5] by blast
  have b: "\<forall>i. 1 \<le> i \<and> i < length ws \<longrightarrow> ws ! (i - 1) \<in> set (dependencies (heap st' (ws ! i)))"
    using a by auto
  have c: "\<forall>n. n \<notin> set ws \<longrightarrow> heap st' n = heap st1 n"
    unfolding 3 using sequentialWaves_other[OF 5] by blast
  show ?thesis using 1 2 4 a b c by blast
qed

text \<open>
  C4 does not hold of the code. The constructor chains the wave graphs, but \<^verbatim>\<open>addWave\<close>
  never adds the graph it returns to the root (there is no \<^verbatim>\<open>this.graph.add(retGraph)\<close>,
  as there is for the ``UpdatePipeline'' group and for the groups \<^verbatim>\<open>topLevelGraph\<close>
  makes). Compiling the blueprint of three waves with self-mutation leaves the wave
  graphs A, B, C (nodes 5, 6, 7) with the edges of B on A and of C on B, but the root's
  children are ``Build'' and ``UpdatePipeline'' and no node has a wave graph as a child:
  the compiled graph contains neither the wave graphs nor the edges between them.
\<close>

theorem wave_graphs_not_in_compiled_graph:
  "(case construct 1 ordered_objects three_waves_blueprint \<lparr>selfMutation = Some True\<rparr> of
      Inl e \<Rightarrow> False
    | Inr st \<Rightarrow>
        graph st = 0 \<and> next_ref st = 8 \<and>
        map (\<lambda>n. node_id (heap st n)) [0, 1, 2, 3, 4, 5, 6, 7]
          = ['''', ''Build'', ''Synth'', ''UpdatePipeline'', ''SelfMutate'', ''A'', ''B'', ''C''] \<and>
        map (\<lambda>n. children (heap st n)) [0, 1, 2, 3, 4, 5, 6, 7]
          = [[1, 3], [2], [], [4], [], [], [], []] \<and>
        map (\<lambda>n. dependencies (heap st n)) [5, 6, 7] = [[4], [4, 5], [4, 6]])"
  by (simp add: ordered_objects_def three_waves_blueprint_def compile_eval addSelfMutation_def
      eval_nat_numeral)

text \<open>
  C7, as amended: when the synth Step declares no primary output, the construction never
  returns a compiler, and it fails with the missing-output error naming the synth step
  whenever the addition of the build step itself succeeded (the check comes after it).
  When the synth Step declares an output, the missing-output error is never raised, and
  a construction that returns has recorded the output as the cloud-assembly file set.
\<close>

theorem missing_synth_output:
  "(case cloudAssemblyOf (steps W (synthStep bp)) of
      None \<Rightarrow>
        (\<forall>st. construct fuel W bp props \<noteq> Inr st) \<and>
        (\<forall>n st1. addBuildStep fuel W (synthStep bp) initial = Inr (n, st1)
           \<longrightarrow> construct fuel W bp props = Inl (MissingOutput (synthStep bp)))
    | Some ca \<Rightarrow>
        (\<forall>s. construct fuel W bp props \<noteq> Inl (MissingOutput s)) \<and>
        (\<forall>st. construct fuel W bp props = Inr st \<longrightarrow> cloudAssemblyFileSet st = Some ca))"
proof (cases "cloudAssemblyOf (steps W (synthStep bp))")
  case None
  have a: "construct fuel W bp props \<noteq> Inr st" for st
  proof
    assume "construct fuel W bp props = Inr st"
    from construct_Inr[OF this] obtain st0 where "construct_prepare fuel W bp props = Inr st0"
      by blast
    then show False using construct_prepare_Inr None by fastforce
  qed
  have b: "construct fuel W bp props = Inl (MissingOutput (synthStep bp))"
    if "addBuildStep fuel W (synthStep bp) initial = Inr (n, st1)" for n st1
    using that None by (simp add: construct_def construct_prepare_eq)
  show ?thesis using None a b by simp
next
  case (Some ca)
  have a: "construct fuel W bp props \<noteq> Inl (MissingOutput s)" for s
    using construct_error[of fuel W bp props "MissingOutput s"] Some
    by (auto simp: plain_error_def)
  have b: "cloudAssemblyFileSet st = Some ca" if "construct fuel W bp props = Inr st" for st
  proof -
    from construct_Inr[OF that] obtain st0 ws st1 where
      1: "construct_prepare fuel W bp props = Inr st0"
      and 2: "st = sequentialWaves ws st1" and 3: "step_ok st0 st1"
      by blast
    have "cloudAssemblyFileSet st0 = Some ca" using construct_prepare_Inr[OF 1] Some by simp
    then have "cloudAssemblyFileSet st1 = Some ca" using 3 by (simp add: step_ok_def)
    then show ?thesis unfolding 2 using sequentialWaves_fields[of ws st1] by simp
  qed
  show ?thesis using Some a b by simp
qed

theorem missing_synth_output_witness:
  "cloudAssemblyOf (steps no_output_objects 0) = None \<and>
   construct 1 no_output_objects \<lparr>synthStep = 0, waves = []\<rparr> \<lparr>selfMutation = None\<rparr>
     = Inl (MissingOutput 0) \<and>
   cloudAssemblyOf (steps ordered_objects 0) = Some (FileSet 0 None) \<and>
   \<not> isl (construct 1 ordered_objects \<lparr>synthStep = 0, waves = []\<rparr> \<lparr>selfMutation = None\<rparr>) \<and>
   cloudAssemblyFileSet
     (projr (construct 1 ordered_objects \<lparr>synthStep = 0, waves = []\<rparr> \<lparr>selfMutation = None\<rparr>))
     = Some (FileSet 0 None)"
proof -
  let ?bp = "\<lparr>synthStep = 0, waves = []\<rparr>"
  let ?props = "\<lparr>selfMutation = None\<rparr>"
  have n: "cloudAssemblyOf (steps no_output_objects (synthStep ?bp)) = None"
    by (simp add: no_output_objects_def plain_step_def cloudAssemblyOf_def)
  have b: "\<not> isl (addBuildStep 1 no_output_objects (synthStep ?bp) initial)"
    by (simp add: no_output_objects_def compile_eval)
  then obtain k st1 where b': "addBuildStep 1 no_output_objects (synthStep ?bp) initial = Inr (k, st1)"
    by (cases "addBuildStep 1 no_output_objects (synthStep ?bp) initial") auto
  have 1: "construct 1 no_output_objects ?bp ?props = Inl (MissingOutput 0)"
    using missing_synth_output[where W = no_output_objects and bp = ?bp and fuel = 1 and props = ?props] n b' by simp
  have s: "cloudAssemblyOf (steps ordered_objects (synthStep ?bp)) = Some (FileSet 0 None)"
    by (simp add: ordered_objects_def synth_output_def cloudAssemblyOf_def)
  have e: "\<not> isl (construct 1 ordered_objects ?bp ?props)"
    by (simp add: ordered_objects_def compile_eval)
  then obtain st where r: "construct 1 ordered_objects ?bp ?props = Inr st"
    by (cases "construct 1 ordered_objects ?bp ?props") auto
  have 2: "cloudAssemblyFileSet st = Some (FileSet 0 None)"
    using missing_synth_output[where W = ordered_objects and bp = ?bp and fuel = 1 and props = ?props] s r by simp
  show ?thesis using n 1 s e 2 unfolding r by simp
qed

text \<open>
  A synth step ``Synth'' without output that depends on another step named ``Synth'':
  the build step is added first, the second node of that name is refused by the
  ``Build'' group, and the construction fails with that error, not with the
  missing-output error.
\<close>

theorem duplicate_id_before_missing_output:
  "cloudAssemblyOf (steps same_id_objects 0) = None \<and>
   construct 2 same_id_objects \<lparr>synthStep = 0, waves = []\<rparr> \<lparr>selfMutation = None\<rparr>
     = Inl (DuplicateId 1 ''Synth'')"
  by (simp add: same_id_objects_def compile_eval eval_nat_numeral)

lemma topLevelGraph_ok:
  assumes fresh: "next_ref st \<notin> set (children (heap st (graph st)))"
  shows "\<exists>g st'. topLevelGraph name st = Inr (g, st')"
proof (cases "tryGetChild (graph st) name st")
  case None
  obtain n st1 where a: "GraphNode_of name None st = (n, st1)" by fastforce
  have g1: "graph st1 = graph st" and nm: "node_id (heap st1 n) = name"
    using a by (auto simp: GraphNode_of_def)
  have "tryGetChild (graph st) name st1 = None"
  proof (cases "graph st = next_ref st")
    case True
    then show ?thesis using a by (auto simp: GraphNode_of_def tryGetChild_def)
  next
    case False
    have "find (\<lambda>c. node_id (heap st1 c) = name) (children (heap st (graph st)))
        = find (\<lambda>c. node_id (heap st c) = name) (children (heap st (graph st)))"
      by (rule find_cong_set) (use a fresh in \<open>auto simp: GraphNode_of_def split: if_splits\<close>)
    moreover have "children (heap st1 (graph st)) = children (heap st (graph st))"
      using a False by (auto simp: GraphNode_of_def)
    ultimately show ?thesis using None by (simp add: tryGetChild_def)
  qed
  then show ?thesis using None a g1 nm by (simp add: topLevelGraph_def)
next
  case (Some g)
  then show ?thesis by (simp add: topLevelGraph_def)
qed

text \<open>
  C9: in a state whose root children and asset memo entry are allocated nodes,
  \<open>publishAsset\<close> fails with the wrong-data-type error exactly when the asset memo has a
  node for the \<open>assetId\<close> whose annotation is not the asset-publish one, and the error
  carries that node and the type of its annotation. No construction fails with this
  error, and a construction that returns leaves an asset memo all of whose nodes carry
  the asset-publish annotation.
\<close>

theorem wrong_data_type_unreachable:
  "((\<forall>c\<in>set (children (heap st (graph st))). c < next_ref st) \<and>
    (\<forall>m. assetNodes st (assetId a) = Some m \<longrightarrow> m < next_ref st) \<longrightarrow>
      (publishAsset a st = Inl (WrongDataType n d) \<longleftrightarrow>
         assetNodes st (assetId a) = Some n \<and>
         (\<forall>xs. data (heap st n) \<noteq> Some (PublishAssets xs)) \<and>
         d = map_option type_of (data (heap st n)))) \<and>
   construct fuel W bp props \<noteq> Inl (WrongDataType n' d') \<and>
   (\<forall>st'. construct fuel W bp props = Inr st' \<longrightarrow> assets_ok st')"
proof (intro conjI impI allI)
  show "construct fuel W bp props \<noteq> Inl (WrongDataType n' d')"
    using construct_error[of fuel W bp props "WrongDataType n' d'"] by (auto simp: plain_error_def)
next
  fix st' assume "construct fuel W bp props = Inr st'"
  from construct_Inr[OF this] obtain st0 ws st1 where
    1: "construct_prepare fuel W bp props = Inr st0"
    and 2: "st' = sequentialWaves ws st1" and 3: "step_ok st0 st1"
    by blast
  have "assets_ok st1" using construct_prepare_Inr[OF 1] step_ok_assets[OF 3] by blast
  then show "assets_ok st'" unfolding 2 by (rule sequentialWaves_assets)
next
  assume h: "(\<forall>c\<in>set (children (heap st (graph st))). c < next_ref st) \<and>
    (\<forall>m. assetNodes st (assetId a) = Some m \<longrightarrow> m < next_ref st)"
  then have "next_ref st \<notin> set (children (heap st (graph st)))" by auto
  from topLevelGraph_ok[OF this] obtain ag st1 where
    t: "topLevelGraph ''Assets'' st = Inr (ag, st1)" by blast
  note F = frame_topLevelGraph[OF t]
  have an: "assetNodes st1 = assetNodes st" using frame_same_fields[OF F] by (simp add: same_fields_def)
  have dt: "\<And>m. assetNodes st (assetId a) = Some m \<Longrightarrow> data (heap st1 m) = data (heap st m)"
    using frame_data[OF F] h by blast
  have pa: "publishAsset a st =
     (case publish_lookup a st1 of Inl e \<Rightarrow> Inl e | Inr st2 \<Rightarrow> publish_new a ag st2)"
    unfolding publishAsset_eq t by simp
  show "publishAsset a st = Inl (WrongDataType n d) \<longleftrightarrow>
         assetNodes st (assetId a) = Some n \<and>
         (\<forall>xs. data (heap st n) \<noteq> Some (PublishAssets xs)) \<and>
         d = map_option type_of (data (heap st n))"
  proof (cases "publish_lookup a st1")
    case (Inl e)
    from Inl[unfolded publish_lookup_Inl] obtain m where
      m: "assetNodes st1 (assetId a) = Some m" "\<forall>xs. data (heap st1 m) \<noteq> Some (PublishAssets xs)"
        "e = WrongDataType m (map_option type_of (data (heap st1 m)))"
      by blast
    have m': "assetNodes st (assetId a) = Some m" using m(1) an by simp
    have dm: "data (heap st1 m) = data (heap st m)" using dt[OF m'] .
    have pe: "publishAsset a st = Inl e" unfolding pa Inl by simp
    show ?thesis unfolding pe using m m' dm by auto
  next
    case (Inr st2)
    have "\<not> (\<exists>e. publish_lookup a st1 = Inl e)" using Inr by simp
    then have no: "\<not> (assetNodes st (assetId a) = Some n \<and>
         (\<forall>xs. data (heap st n) \<noteq> Some (PublishAssets xs)))"
      unfolding publish_lookup_Inl using an dt by auto
    have "publish_new a ag st2 \<noteq> Inl (WrongDataType n d)"
      using publish_new_error[of a ag st2 "WrongDataType n d"] by (auto simp: plain_error_def)
    then show ?thesis unfolding pa using Inr no by auto
  qed
qed

theorem wrong_data_type_unreachable_witness:
  "children (heap wrong_memo_state (graph wrong_memo_state)) = [] \<and>
   assetNodes wrong_memo_state ''abc'' = Some 0 \<and> 0 < next_ref wrong_memo_state \<and>
   data (heap wrong_memo_state 0) = Some Group \<and>
   publishAsset \<lparr>assetId = ''abc'', assetSelector = ''region1'', assetType = FILE\<rparr> wrong_memo_state
     = Inl (WrongDataType 0 (Some ''group'')) \<and>
   construct 2 two_stacks_objects two_stacks_blueprint \<lparr>selfMutation = None\<rparr>
     \<noteq> Inl (WrongDataType 0 None)"
proof -
  let ?a = "\<lparr>assetId = ''abc'', assetSelector = ''region1'', assetType = FILE\<rparr>"
  have g: "children (heap wrong_memo_state (graph wrong_memo_state)) = [] \<and>
   assetNodes wrong_memo_state ''abc'' = Some 0 \<and> 0 < next_ref wrong_memo_state \<and>
   data (heap wrong_memo_state 0) = Some Group"
    by (simp add: wrong_memo_state_def initial_def)
  have h: "(\<forall>c\<in>set (children (heap wrong_memo_state (graph wrong_memo_state))). c < next_ref wrong_memo_state) \<and>
   (\<forall>m. assetNodes wrong_memo_state (assetId ?a) = Some m \<longrightarrow> m < next_ref wrong_memo_state)"
    using g by simp
  have c: "assetNodes wrong_memo_state (assetId ?a) = Some 0 \<and>
         (\<forall>xs. data (heap wrong_memo_state 0) \<noteq> Some (PublishAssets xs)) \<and>
         Some ''group'' = map_option type_of (data (heap wrong_memo_state 0))"
    using g by simp
  note T = wrong_data_type_unreachable[where st = wrong_memo_state and a = ?a and n = 0
      and d = "Some ''group''" and fuel = 2 and W = two_stacks_objects
      and bp = two_stacks_blueprint and props = "\<lparr>selfMutation = None\<rparr>" and n' = 0 and d' = None]
  have "publishAsset ?a wrong_memo_state = Inl (WrongDataType 0 (Some ''group''))"
    using conjunct1[OF T] h c by blast
  moreover have "construct 2 two_stacks_objects two_stacks_blueprint \<lparr>selfMutation = None\<rparr>
     \<noteq> Inl (WrongDataType 0 None)"
    using conjunct1[OF conjunct2[OF T]] .
  ultimately show ?thesis using g by simp
qed

section \<open>Building at most once\<close>

text \<open>
  The flag \<open>built\<close> and the count of normal returns of \<^verbatim>\<open>buildDeployment\<close> agree on
  every object a sequence of calls reaches, and once the flag is set no call changes the
  object.
\<close>

lemma built_once_new: "built_once (Pipeline_new bp eng)"
  by (simp add: built_once_def Pipeline_new_def)

lemma built_once_invoke: "built_once p \<Longrightarrow> built_once (invoke bd sa wa c p)"
  by (cases c)
     (auto simp: built_once_def invoke_def Pipeline_addStage_def Pipeline_addWave_def build_def
        prepare_def split: prod.splits option.splits)

lemma built_once_run: "built_once p \<Longrightarrow> built_once (run bd sa wa cs p)"
  unfolding run_def
  by (induction cs arbitrary: p) (simp_all add: built_once_invoke)

lemma quiet_invoke:
  assumes q: "\<forall>b e. fst (bd b e) = None" and i: "engine_calls p = (if built p then 1 else 0)"
  shows "engine_calls (invoke bd sa wa c p) = (if built (invoke bd sa wa c p) then 1 else 0)"
proof -
  obtain eng where e: "bd (blueprint p) (engine p) = (None, eng)"
    using q by (metis prod.collapse)
  show ?thesis
    using i e
    by (cases c)
       (auto simp: invoke_def Pipeline_addStage_def Pipeline_addWave_def build_def
          prepare_def split: prod.splits)
qed

lemma quiet_run:
  "\<forall>b e. fst (bd b e) = None \<Longrightarrow> engine_calls p = (if built p then 1 else 0)
     \<Longrightarrow> engine_calls (run bd sa wa cs p) = (if built (run bd sa wa cs p) then 1 else 0)"
  unfolding run_def
proof (induction cs arbitrary: p)
  case Nil
  then show ?case by simp
next
  case (Cons c cs)
  show ?case
    using Cons.IH[OF Cons.prems(1) quiet_invoke[OF Cons.prems, of sa wa c]] by simp
qed

lemma built_invoke: "built p \<Longrightarrow> invoke bd sa wa c p = p"
  by (cases c)
     (simp_all add: invoke_def Pipeline_addStage_def Pipeline_addWave_def build_def prepare_def)

lemma built_run: "built p \<Longrightarrow> run bd sa wa cs p = p"
  unfolding run_def by (induction cs) (simp_all add: built_invoke)

text \<open>
  C10, as amended: on every object a caller can reach from a new \<^verbatim>\<open>Pipeline\<close>,
  \<^verbatim>\<open>buildDeployment\<close> has returned normally exactly once if \<open>built\<close> is set and never
  otherwise; with an engine that never throws it has been invoked exactly once if
  \<open>built\<close> is set and never otherwise. Once \<open>built\<close> is set, \<^verbatim>\<open>build\<close> throws its
  message, \<^verbatim>\<open>addStage\<close> and \<^verbatim>\<open>addWave\<close> throw theirs, \<^verbatim>\<open>prepare\<close> does nothing, and no
  sequence of calls changes the object. While \<open>built\<close> is not set, \<^verbatim>\<open>prepare\<close> is
  \<^verbatim>\<open>build\<close>, which invokes the engine once, sets \<open>built\<close> exactly when the engine
  returns normally, and rethrows what the engine throws.
\<close>

theorem build_at_most_once:
  fixes bd :: "'b \<Rightarrow> 'e \<Rightarrow> string option \<times> 'e"
    and sa :: "'s \<Rightarrow> 'b \<Rightarrow> (string + 'r) \<times> 'b"
    and wa :: "'w \<Rightarrow> 'b \<Rightarrow> (string + 'r) \<times> 'b"
  assumes p: "p = run bd sa wa cs (Pipeline_new bp eng)"
  shows "engine_returns p = (if built p then 1 else 0) \<and>
     ((\<forall>b e. fst (bd b e) = None) \<longrightarrow> engine_calls p = (if built p then 1 else 0)) \<and>
     (built p \<longrightarrow>
        build bd p = (Inl already_built_message, p) \<and>
        Pipeline_addStage sa stage p = (Inl no_more_stages_message, p) \<and>
        Pipeline_addWave wa wid p = (Inl no_more_stages_message, p) \<and>
        prepare bd p = (Inr (), p) \<and>
        run bd sa wa cs' p = p) \<and>
     (\<not> built p \<longrightarrow>
        prepare bd p = build bd p \<and>
        engine_calls (snd (build bd p)) = Suc (engine_calls p) \<and>
        (built (snd (build bd p)) \<longleftrightarrow> fst (bd (blueprint p) (engine p)) = None) \<and>
        (fst (bd (blueprint p) (engine p)) = None \<longleftrightarrow> fst (build bd p) = Inr ()) \<and>
        (\<forall>thrown. fst (bd (blueprint p) (engine p)) = Some thrown
            \<longrightarrow> fst (build bd p) = Inl thrown))"
proof (intro conjI impI)
  have "built_once p" unfolding p by (rule built_once_run[OF built_once_new])
  then show "engine_returns p = (if built p then 1 else 0)" by (simp add: built_once_def)
next
  assume q: "\<forall>b e. fst (bd b e) = None"
  show "engine_calls p = (if built p then 1 else 0)"
    unfolding p by (rule quiet_run[OF q]) (simp add: Pipeline_new_def)
next
  assume b: "built p"
  show "build bd p = (Inl already_built_message, p)" using b by (simp add: build_def)
  show "Pipeline_addStage sa stage p = (Inl no_more_stages_message, p)"
    using b by (simp add: Pipeline_addStage_def)
  show "Pipeline_addWave wa wid p = (Inl no_more_stages_message, p)"
    using b by (simp add: Pipeline_addWave_def)
  show "prepare bd p = (Inr (), p)" using b by (simp add: prepare_def)
  show "run bd sa wa cs' p = p" using b by (rule built_run)
next
  assume b: "\<not> built p"
  show "prepare bd p = build bd p" using b by (simp add: prepare_def)
  show "engine_calls (snd (build bd p)) = Suc (engine_calls p)"
    using b by (auto simp: build_def split: prod.splits option.splits)
  show "built (snd (build bd p)) \<longleftrightarrow> fst (bd (blueprint p) (engine p)) = None"
    using b by (auto simp: build_def split: prod.splits option.splits)
  show "fst (bd (blueprint p) (engine p)) = None \<longleftrightarrow> fst (build bd p) = Inr ()"
    using b by (auto simp: build_def split: prod.splits option.splits)
  show "\<forall>thrown. fst (bd (blueprint p) (engine p)) = Some thrown
            \<longrightarrow> fst (build bd p) = Inl thrown"
    using b by (auto simp: build_def split: prod.splits option.splits)
qed

lemmas pipeline_eval = run_def invoke_def Pipeline_new_def Pipeline_addStage_def
  Pipeline_addWave_def build_def prepare_def recording_addStage_def counting_engine_def
  throwing_engine_def

theorem build_at_most_once_witness:
  "built (run counting_engine recording_addStage recording_addStage
            [CallAddStage ''Beta'', CallBuild] (Pipeline_new [] 0)) \<and>
   engine_calls (run counting_engine recording_addStage recording_addStage
            [CallAddStage ''Beta'', CallBuild, CallBuild, CallPrepare, CallAddWave ''Gamma''] (Pipeline_new [] 0)) = 1 \<and>
   fst (build counting_engine (run counting_engine recording_addStage recording_addStage
            [CallAddStage ''Beta'', CallBuild] (Pipeline_new [] 0))) = Inl already_built_message \<and>
   fst (Pipeline_addStage recording_addStage ''Gamma''
          (run counting_engine recording_addStage recording_addStage
            [CallAddStage ''Beta'', CallBuild] (Pipeline_new [] 0))) = Inl no_more_stages_message \<and>
   fst (Pipeline_addWave recording_addStage ''Gamma''
          (run counting_engine recording_addStage recording_addStage
            [CallAddStage ''Beta'', CallBuild] (Pipeline_new [] 0))) = Inl no_more_stages_message \<and>
   \<not> built (run counting_engine recording_addStage recording_addStage
            [CallAddStage ''Beta''] (Pipeline_new [] 0)) \<and>
   fst (prepare counting_engine (run counting_engine recording_addStage recording_addStage
            [CallAddStage ''Beta''] (Pipeline_new [] 0))) = Inr () \<and>
   engine_calls (snd (prepare counting_engine
          (run counting_engine recording_addStage recording_addStage
            [CallAddStage ''Beta''] (Pipeline_new [] 0)))) = 1"
proof -
  let ?run = "run counting_engine recording_addStage recording_addStage"
  let ?p = "?run [CallAddStage ''Beta'', CallBuild] (Pipeline_new [] 0)"
  let ?q = "?run [CallAddStage ''Beta''] (Pipeline_new [] 0)"
  have b: "built ?p" by (simp add: pipeline_eval)
  have nb: "\<not> built ?q \<and> engine_calls ?q = 0" by (simp add: pipeline_eval)
  have quiet: "\<forall>b e. fst (counting_engine b e) = None" by (simp add: counting_engine_def)
  have e: "?run [CallAddStage ''Beta'', CallBuild, CallBuild, CallPrepare, CallAddWave ''Gamma''] (Pipeline_new [] 0)
      = ?run [CallBuild, CallPrepare, CallAddWave ''Gamma''] ?p"
    by (simp add: run_def)
  note P = build_at_most_once[where bd = counting_engine and sa = recording_addStage
      and wa = recording_addStage and cs = "[CallAddStage ''Beta'', CallBuild]" and bp = "[]" and eng = 0
      and stage = "''Gamma''" and wid = "''Gamma''"
      and cs' = "[CallBuild, CallPrepare, CallAddWave ''Gamma'']", OF refl]
  note Q = build_at_most_once[where bd = counting_engine and sa = recording_addStage
      and wa = recording_addStage and cs = "[CallAddStage ''Beta'']" and bp = "[]" and eng = 0
      and stage = "''Gamma''" and wid = "''Gamma''" and cs' = "[]", OF refl]
  have 1: "engine_calls ?p = 1" using P quiet b by simp
  have 2: "build counting_engine ?p = (Inl already_built_message, ?p)"
    and 3: "Pipeline_addStage recording_addStage ''Gamma'' ?p = (Inl no_more_stages_message, ?p)"
    and 4: "Pipeline_addWave recording_addStage ''Gamma'' ?p = (Inl no_more_stages_message, ?p)"
    and 5: "?run [CallBuild, CallPrepare, CallAddWave ''Gamma''] ?p = ?p"
    using P b by blast+
  have 6: "prepare counting_engine ?q = build counting_engine ?q"
    and 7: "engine_calls (snd (build counting_engine ?q)) = Suc (engine_calls ?q)"
    and 8: "fst (counting_engine (blueprint ?q) (engine ?q)) = None
              \<longleftrightarrow> fst (build counting_engine ?q) = Inr ()"
    using Q nb by blast+
  have 9: "fst (build counting_engine ?q) = Inr ()" using 8 by (simp add: counting_engine_def)
  show ?thesis unfolding e 5 6 using b 1 2 3 4 nb 7 9 by simp
qed

text \<open>
  With an engine whose \<^verbatim>\<open>buildDeployment\<close> throws, \<open>built\<close> stays unset after
  \<^verbatim>\<open>build\<close> has been called: a second \<^verbatim>\<open>build\<close> invokes the engine a second time
  and throws the engine's error, not its own message; \<^verbatim>\<open>addStage\<close> and \<^verbatim>\<open>addWave\<close>
  still succeed; and \<^verbatim>\<open>prepare\<close> after \<^verbatim>\<open>build\<close> invokes the engine again.
\<close>

theorem failed_build_can_be_repeated:
  "fst (build throwing_engine (Pipeline_new [] 0)) = Inl ''no primary output'' \<and>
   fst (build throwing_engine (snd (build throwing_engine (Pipeline_new [] 0))))
     \<noteq> Inl already_built_message \<and>
   engine_calls (snd (build throwing_engine (snd (build throwing_engine (Pipeline_new [] 0))))) = 2 \<and>
   fst (Pipeline_addStage recording_addStage ''Gamma''
          (snd (build throwing_engine (Pipeline_new [] 0)))) = Inr () \<and>
   fst (Pipeline_addWave recording_addStage ''Gamma''
          (snd (build throwing_engine (Pipeline_new [] 0)))) = Inr () \<and>
   engine_calls (run throwing_engine recording_addStage recording_addStage
          [CallBuild, CallPrepare] (Pipeline_new [] 0)) = 2"
  by (simp add: pipeline_eval already_built_message_def)

end
